theory Spec2Isabelle
  imports Complex_Main "HOL-Library.Monad_Syntax"
begin

section \<open>A wavetable synthesiser voice (SynthUsingMidiInputTutorial_01.h)\<close>

text \<open>
  The C++ types \<open>float\<close> and \<open>double\<close> are modelled by \<^typ>\<open>real\<close>: every
  arithmetic operation and every cast between the two is exact, so rounding, infinities
  and NaN are outside the model. Integers of the source (\<open>int\<close>, \<open>unsigned int\<close>) are
  \<^typ>\<open>int\<close> and \<^typ>\<open>nat\<close>, with the 32-bit wrap-around of unsigned arithmetic
  written out where the source can reach it; signed values are unbounded, so signed overflow
  is outside the model. A read or write outside an array, and a dereference of a null or
  uninitialised pointer, is undefined behaviour in C++; the model returns \<open>None\<close> there.
\<close>

subsection \<open>WavetableOscillator\<close>

text \<open>
  The oscillator holds a reference to the single channel of the wavetable buffer, which
  nothing writes after its construction; the model keeps the channel's samples by value.
\<close>

record WavetableOscillator =
  wavetable :: "real list"
  tableSize :: int
  currentIndex :: real
  tableDelta :: real

text \<open>The constructor: \<open>tableSize (wavetable.getNumSamples() - 1)\<close>, both floats zero.\<close>

definition newWavetableOscillator :: "real list \<Rightarrow> WavetableOscillator" where
  "newWavetableOscillator wavetableToUse =
     \<lparr>wavetable = wavetableToUse,
      tableSize = int (length wavetableToUse) - 1,
      currentIndex = 0,
      tableDelta = 0\<rparr>"

definition setFrequency :: "real \<Rightarrow> real \<Rightarrow> WavetableOscillator \<Rightarrow> WavetableOscillator" where
  "setFrequency frequency sampleRate osc =
     (let tableSizeOverSampleRate = real_of_int (tableSize osc) / sampleRate
      in osc\<lparr>tableDelta := frequency * tableSizeOverSampleRate\<rparr>)"

text \<open>
  \<open>(unsigned int) x\<close> truncates towards zero and is defined only when the truncated
  value fits in 32 bits.
\<close>

definition toUnsignedInt :: "real \<Rightarrow> nat option" where
  "toUnsignedInt x =
     (if x \<le> -1 \<or> 2 ^ 32 \<le> x then None
      else if x < 0 then Some 0
      else Some (nat \<lfloor>x\<rfloor>))"

text \<open>\<open>table[i]\<close> on the read pointer of a buffer with \<open>length table\<close> samples.\<close>

definition readTable :: "real list \<Rightarrow> nat \<Rightarrow> real option" where
  "readTable table i = (if i < length table then Some (table ! i) else None)"

text \<open>
  \<open>getNextSample\<close> returns the sample and the oscillator with its advanced index.
  The line computing \<open>frac\<close> is commented out in the source and the interpolation
  multiplies by the literal \<open>1\<close>.

  In the source \<open>currentIndex\<close> and \<open>tableDelta\<close> are binary32, and the sum
  \<open>currentIndex += tableDelta\<close> is rounded before it is compared with \<open>tableSize\<close>; the
  model adds exactly. The rounded sum can be \<open>tableSize\<close> where the exact sum is not, so
  what is stated below about the value of the advanced index is stated either for every
  run of the oscillator that delivers its samples, or at values on which binary32
  arithmetic is exact.
\<close>

definition getNextSample :: "WavetableOscillator \<Rightarrow> (real \<times> WavetableOscillator) option" where
  "getNextSample osc =
     do {
       index0 \<leftarrow> toUnsignedInt (currentIndex osc);
       let index1 = (index0 + 1) mod 2 ^ 32;
       let table = wavetable osc;
       value0 \<leftarrow> readTable table index0;
       value1 \<leftarrow> readTable table index1;
       let currentSample = value0 + 1 * (value1 - value0);
       let advanced = currentIndex osc + tableDelta osc;
       Some (currentSample,
             if advanced > real_of_int (tableSize osc)
             then osc\<lparr>currentIndex := advanced - real_of_int (tableSize osc)\<rparr>
             else osc\<lparr>currentIndex := advanced\<rparr>)
     }"

subsection \<open>SineWaveVoice: note lifecycle\<close>

text \<open>
  The sounds a voice can be handed: the wavetable sound of this program, or any other
  \<open>SynthesiserSound\<close>, on which the \<open>dynamic_cast\<close> yields a null pointer.
\<close>

datatype SynthesiserSound = SineWaveSound "real list" | OtherSound

fun canPlaySound :: "SynthesiserSound \<Rightarrow> bool" where
  "canPlaySound (SineWaveSound _) = True"
| "canPlaySound OtherSound = False"

fun getWaveTable :: "SynthesiserSound \<Rightarrow> real list option" where
  "getWaveTable (SineWaveSound waveTable) = Some waveTable"
| "getWaveTable OtherSound = None"

text \<open>
  The fields of \<open>SineWaveVoice\<close>, and \<open>currentNote\<close> for the note the base class
  \<open>juce::SynthesiserVoice\<close> records (\<open>None\<close> when no note is assigned). The pointer
  \<open>osc\<close> is uninitialised until the first \<open>startNote\<close>: \<open>None\<close>.
\<close>

record SineWaveVoice =
  level :: real
  tailOff :: real
  notePlaying :: bool
  osc :: "WavetableOscillator option"
  currentNote :: "int option"

text \<open>A freshly constructed voice.\<close>

definition newSineWaveVoice :: SineWaveVoice where
  "newSineWaveVoice =
     \<lparr>level = 0, tailOff = 0, notePlaying = False, osc = None, currentNote = None\<rparr>"

text \<open>
  \<open>clearCurrentNote\<close> of the base class forgets the assigned note; the fields of the
  derived class are not touched.
\<close>

definition clearCurrentNote :: "SineWaveVoice \<Rightarrow> SineWaveVoice" where
  "clearCurrentNote v = v\<lparr>currentNote := None\<rparr>"

text \<open>
  \<open>startNote\<close>. The library calls \<open>juce::MidiMessage::getMidiNoteInHertz\<close> and
  \<open>getSampleRate()\<close> are parameters of the model (\<open>noteInHertz\<close>, \<open>sampleRate\<close>).
  Assigning the note number is done by the caller, the library's synthesiser, not here.
\<close>

definition startNote ::
  "(int \<Rightarrow> real) \<Rightarrow> real \<Rightarrow> int \<Rightarrow> real \<Rightarrow> SynthesiserSound \<Rightarrow> SineWaveVoice
     \<Rightarrow> SineWaveVoice option" where
  "startNote noteInHertz sampleRate midiNoteNumber velocity sound v =
     do {
       let v1 = v\<lparr>level := velocity * 0.025, tailOff := 0\<rparr>;
       waveTable \<leftarrow> getWaveTable sound;
       let v2 = v1\<lparr>osc := Some (newWavetableOscillator waveTable)\<rparr>;
       let cyclesPerSecond = noteInHertz midiNoteNumber;
       oscillator \<leftarrow> osc v2;
       let v3 = v2\<lparr>osc := Some (setFrequency cyclesPerSecond sampleRate oscillator)\<rparr>;
       Some (v3\<lparr>notePlaying := True\<rparr>)
     }"

definition stopNote :: "bool \<Rightarrow> SineWaveVoice \<Rightarrow> SineWaveVoice" where
  "stopNote allowTailOff v =
     (if allowTailOff
      then (if tailOff v = 0 then v\<lparr>tailOff := 1\<rparr> else v)
      else (clearCurrentNote v)\<lparr>notePlaying := False\<rparr>)"

text \<open>The states of the voice lifecycle, read off the fields.\<close>

definition isIdle :: "SineWaveVoice \<Rightarrow> bool" where
  "isIdle v \<longleftrightarrow> \<not> notePlaying v \<and> currentNote v = None"

definition isSustaining :: "SineWaveVoice \<Rightarrow> bool" where
  "isSustaining v \<longleftrightarrow> notePlaying v \<and> tailOff v = 0"

definition isReleasing :: "SineWaveVoice \<Rightarrow> bool" where
  "isReleasing v \<longleftrightarrow> notePlaying v \<and> tailOff v > 0"

subsection \<open>The output buffer\<close>

text \<open>
  A \<open>juce::AudioSampleBuffer\<close> is a list of channels, each a list of samples.
  \<open>addSample\<close> of the library asserts that channel and sample index are inside the
  buffer and then adds to the one sample.
\<close>

type_synonym AudioSampleBuffer = "real list list"

definition getNumChannels :: "AudioSampleBuffer \<Rightarrow> int" where
  "getNumChannels buffer = int (length buffer)"

definition addSample :: "AudioSampleBuffer \<Rightarrow> int \<Rightarrow> int \<Rightarrow> real \<Rightarrow> AudioSampleBuffer option" where
  "addSample buffer destChannel destSample valueToAdd =
     (if 0 \<le> destChannel \<and> destChannel < int (length buffer) \<and>
         0 \<le> destSample \<and> destSample < int (length (buffer ! nat destChannel))
      then Some (buffer[nat destChannel :=
                   (buffer ! nat destChannel)[nat destSample :=
                      buffer ! nat destChannel ! nat destSample + valueToAdd]])
      else None)"

text \<open>
  \<open>for (auto i = outputBuffer.getNumChannels(); --i >= 0;)
    outputBuffer.addSample (i, startSample, currentSample);\<close>
\<close>

function addToChannels :: "int \<Rightarrow> AudioSampleBuffer \<Rightarrow> int \<Rightarrow> real \<Rightarrow> AudioSampleBuffer option" where
  "addToChannels i outputBuffer startSample currentSample =
     (if i - 1 \<ge> 0
      then do {
             buffer' \<leftarrow> addSample outputBuffer (i - 1) startSample currentSample;
             addToChannels (i - 1) buffer' startSample currentSample
           }
      else Some outputBuffer)"
  by pat_completeness auto
termination
  by (relation "measure (\<lambda>(i, b, s, c). nat i)") auto

declare addToChannels.simps [simp del]

subsection \<open>SineWaveVoice: rendering\<close>

text \<open>The loop of the branch \<open>tailOff > 0.0\<close>, with its \<open>break\<close>.\<close>

function renderTailOff ::
  "SineWaveVoice \<Rightarrow> AudioSampleBuffer \<Rightarrow> int \<Rightarrow> int \<Rightarrow> (SineWaveVoice \<times> AudioSampleBuffer) option" where
  "renderTailOff v outputBuffer startSample numSamples =
     (if numSamples - 1 \<ge> 0
      then do {
             oscillator \<leftarrow> osc v;
             (sample, oscillator') \<leftarrow> getNextSample oscillator;
             let currentSample = sample * level v * tailOff v;
             buffer' \<leftarrow> addToChannels (getNumChannels outputBuffer) outputBuffer
                          startSample currentSample;
             let v' = v\<lparr>osc := Some oscillator', tailOff := tailOff v * 0.99\<rparr>;
             if tailOff v' \<le> 0.005
             then Some ((clearCurrentNote v')\<lparr>notePlaying := False\<rparr>, buffer')
             else renderTailOff v' buffer' (startSample + 1) (numSamples - 1)
           }
      else Some (v, outputBuffer))"
  by pat_completeness auto
termination
  by (relation "measure (\<lambda>(v, b, s, n). nat n)") auto

declare renderTailOff.simps [simp del]

text \<open>The loop of the other branch.\<close>

function renderSustain ::
  "SineWaveVoice \<Rightarrow> AudioSampleBuffer \<Rightarrow> int \<Rightarrow> int \<Rightarrow> (SineWaveVoice \<times> AudioSampleBuffer) option" where
  "renderSustain v outputBuffer startSample numSamples =
     (if numSamples - 1 \<ge> 0
      then do {
             oscillator \<leftarrow> osc v;
             (sample, oscillator') \<leftarrow> getNextSample oscillator;
             let currentSample = sample * level v;
             buffer' \<leftarrow> addToChannels (getNumChannels outputBuffer) outputBuffer
                          startSample currentSample;
             renderSustain (v\<lparr>osc := Some oscillator'\<rparr>) buffer' (startSample + 1) (numSamples - 1)
           }
      else Some (v, outputBuffer))"
  by pat_completeness auto
termination
  by (relation "measure (\<lambda>(v, b, s, n). nat n)") auto

declare renderSustain.simps [simp del]

definition renderNextBlock ::
  "SineWaveVoice \<Rightarrow> AudioSampleBuffer \<Rightarrow> int \<Rightarrow> int \<Rightarrow> (SineWaveVoice \<times> AudioSampleBuffer) option" where
  "renderNextBlock v outputBuffer startSample numSamples =
     (if notePlaying v
      then (if tailOff v > 0
            then renderTailOff v outputBuffer startSample numSamples
            else renderSustain v outputBuffer startSample numSamples)
      else Some (v, outputBuffer))"

subsection \<open>SineWaveSound: building the wavetable\<close>

text \<open>The member \<open>const unsigned int tableSize = 1 << 24\<close> and the local array \<open>harmonics\<close>.\<close>

definition SineWaveSound_tableSize :: nat where
  "SineWaveSound_tableSize = 2 ^ 24"

definition harmonics :: "int list" where
  "harmonics = [1, 2, 3, 4, 5, 6, 7, 8]"

definition twoPi :: real where
  "twoPi = 2 * pi"

text \<open>
  The inner loop \<open>for (unsigned int i = 0; i < tableSize; ++i)\<close> for the harmonic at
  position \<open>harmonic\<close> of the array. The buffer it writes has \<open>tableSize + 1\<close> samples
  (see \<open>createWavetableOf\<close>), so every index it touches is inside the buffer.
\<close>

function fillHarmonic :: "nat \<Rightarrow> nat \<Rightarrow> real \<Rightarrow> nat \<Rightarrow> real \<Rightarrow> real list \<Rightarrow> real list" where
  "fillHarmonic tsize harmonic angleDelta i currentAngle samples =
     (if i < tsize
      then (let sample = sin currentAngle;
                samples' = samples[i := samples ! i + sample / real (harmonic + 1)]
            in fillHarmonic tsize harmonic angleDelta (i + 1) (currentAngle + angleDelta) samples')
      else samples)"
  by pat_completeness auto
termination
  by (relation "measure (\<lambda>(tsize, h, d, i, a, s). tsize - i)") auto

declare fillHarmonic.simps [simp del]

text \<open>
  The outer loop over the positions of \<open>harmonics\<close>; the guard sample is copied at the
  end of every round. \<open>tableSize - 1\<close> is unsigned arithmetic.
\<close>

function harmonicsLoop :: "nat \<Rightarrow> int list \<Rightarrow> nat \<Rightarrow> real list \<Rightarrow> real list" where
  "harmonicsLoop tsize hs harmonic samples =
     (if harmonic < length hs
      then (let angleDelta = twoPi / real_of_int ((int tsize - 1) mod 2 ^ 32)
                               * real_of_int (hs ! harmonic);
                currentAngle = 0;
                samples' = fillHarmonic tsize harmonic angleDelta 0 currentAngle samples;
                samples'' = samples'[tsize := samples' ! 0]
            in harmonicsLoop tsize hs (harmonic + 1) samples'')
      else samples)"
  by pat_completeness auto
termination
  by (relation "measure (\<lambda>(tsize, hs, h, s). length hs - h)") auto

declare harmonicsLoop.simps [simp del]

text \<open>\<open>setSize (1, tableSize + 1)\<close>, \<open>clear()\<close>, then the loops.\<close>

definition createWavetableOf :: "nat \<Rightarrow> int list \<Rightarrow> real list" where
  "createWavetableOf tsize hs = harmonicsLoop tsize hs 0 (replicate (tsize + 1) 0)"

definition createWavetable :: "real list" where
  "createWavetable = createWavetableOf SineWaveSound_tableSize harmonics"

subsection \<open>Notions the stated properties use\<close>

text \<open>
  Linear interpolation between the two table samples that bracket the index, weighted by
  the fractional part of the index.
\<close>

definition linearInterpolation :: "WavetableOscillator \<Rightarrow> real" where
  "linearInterpolation oscillator =
     (let index0 = nat \<lfloor>currentIndex oscillator\<rfloor>;
          frac = currentIndex oscillator - real index0;
          value0 = wavetable oscillator ! index0;
          value1 = wavetable oscillator ! (index0 + 1)
      in value0 + frac * (value1 - value0))"

text \<open>The samples of \<open>k\<close> successive calls of \<open>getNextSample\<close>, and the oscillator left.\<close>

fun takeSamples :: "nat \<Rightarrow> WavetableOscillator \<Rightarrow> (real list \<times> WavetableOscillator) option" where
  "takeSamples 0 oscillator = Some ([], oscillator)"
| "takeSamples (Suc k) oscillator =
     do {
       (sample, oscillator') \<leftarrow> getNextSample oscillator;
       (samples, oscillator'') \<leftarrow> takeSamples k oscillator';
       Some (sample # samples, oscillator'')
     }"

text \<open>
  The number of samples a voice with tail-off \<open>t\<close> contributes to a block of \<open>n\<close>
  samples: up to the first \<open>j \<ge> 1\<close> at which \<open>t\<close>, multiplied \<open>j\<close> times by 0.99, is
  at or below 0.005, and all \<open>n\<close> when there is no such \<open>j \<le> n\<close>.
\<close>

definition releaseLength :: "real \<Rightarrow> nat \<Rightarrow> nat" where
  "releaseLength t n =
     (case find (\<lambda>j. t * 0.99 ^ j \<le> 0.005) [1..<n + 1] of
        Some j \<Rightarrow> j
      | None \<Rightarrow> n)"

text \<open>
  The angle step of the harmonic at position \<open>m\<close> of \<open>hs\<close>, as the outer loop of the
  wavetable construction computes it for a table of \<open>n\<close> samples.
\<close>

definition angleDeltaOf :: "nat \<Rightarrow> int list \<Rightarrow> nat \<Rightarrow> real" where
  "angleDeltaOf n hs m = twoPi / real_of_int ((int n - 1) mod 2 ^ 32) * real_of_int (hs ! m)"

text \<open>Two buffers with the same number of channels and the same channel lengths.\<close>

definition sameShape :: "AudioSampleBuffer \<Rightarrow> AudioSampleBuffer \<Rightarrow> bool" where
  "sameShape a b \<longleftrightarrow> map length a = map length b"

text \<open>
  What a run of values \<open>ys\<close> mixed in from position \<open>s\<close> on adds at position \<open>q\<close> of
  a channel.
\<close>

definition contribution :: "int \<Rightarrow> real list \<Rightarrow> nat \<Rightarrow> real" where
  "contribution s ys q =
     (if s \<le> int q \<and> int q < s + int (length ys) then ys ! nat (int q - s) else 0)"

text \<open>
  The values a releasing voice with level \<open>l\<close> and tail-off \<open>t\<close> mixes in for the
  oscillator samples \<open>xs\<close>.
\<close>

fun releaseMix :: "real \<Rightarrow> real \<Rightarrow> real list \<Rightarrow> real list" where
  "releaseMix l t [] = []"
| "releaseMix l t (x # xs) = x * l * t # releaseMix l (t * 0.99) xs"

section \<open>Properties of the oscillator\<close>

text \<open>
  On an oscillator as the constructor builds it (the table has \<open>tableSize + 1\<close> samples)
  whose index is inside the table, \<open>getNextSample\<close> succeeds, returns the table sample
  after the index and advances the index with a single conditional subtraction.
\<close>

lemma getNextSample_in_table:
  assumes "0 \<le> currentIndex oscillator"
    and "currentIndex oscillator < real_of_int (tableSize oscillator)"
    and "int (length (wavetable oscillator)) = tableSize oscillator + 1"
    and "tableSize oscillator < 2 ^ 31"
  shows "getNextSample oscillator =
           Some (wavetable oscillator ! (nat \<lfloor>currentIndex oscillator\<rfloor> + 1),
                 oscillator\<lparr>currentIndex :=
                   (if currentIndex oscillator + tableDelta oscillator
                         > real_of_int (tableSize oscillator)
                    then currentIndex oscillator + tableDelta oscillator
                           - real_of_int (tableSize oscillator)
                    else currentIndex oscillator + tableDelta oscillator)\<rparr>)"
proof -
  let ?x = "currentIndex oscillator"
  let ?i = "nat \<lfloor>?x\<rfloor>"
  have fl: "\<lfloor>?x\<rfloor> < tableSize oscillator"
    using assms(2) by (simp add: floor_less_iff)
  have nn: "0 \<le> \<lfloor>?x\<rfloor>"
    using assms(1) by simp
  have lt: "?x < 2 ^ 32"
  proof -
    have "real_of_int (tableSize oscillator) < real_of_int (2 ^ 31)"
      using assms(4) by (simp only: of_int_less_iff)
    then show ?thesis using assms(2) by simp
  qed
  have u: "toUnsignedInt ?x = Some ?i"
    using assms(1) lt by (simp add: toUnsignedInt_def)
  have "int ?i + 1 < int (length (wavetable oscillator))"
    using fl nn assms(3) by simp
  then have len: "?i + 1 < length (wavetable oscillator)"
    by linarith
  have ii: "int ?i = \<lfloor>?x\<rfloor>"
    using nn by simp
  have "int ?i < 2 ^ 31"
    using ii fl assms(4) by linarith
  then have "?i < 2 ^ 31"
    by (metis of_nat_less_iff of_nat_numeral of_nat_power)
  then have "?i + 1 < 2 ^ 32"
    by simp
  then have m: "(?i + 1) mod 2 ^ 32 = ?i + 1"
    by simp
  show ?thesis
    unfolding getNextSample_def using u m len
    by (simp add: readTable_def Let_def)
qed

text \<open>
  The sample returned is the second of the two bracketing samples, whatever the fractional
  part of the index: on the table \<open>[0, 1, 0]\<close> at index \<open>1/2\<close> the linear interpolation
  is \<open>1/2\<close> and \<open>getNextSample\<close> returns \<open>1\<close>.
\<close>

lemma getNextSample_second_sample:
  "map_option fst (getNextSample
      \<lparr>wavetable = [0, 1, 0], tableSize = 2, currentIndex = 1 / 2, tableDelta = 0\<rparr>) = Some 1
   \<and> linearInterpolation
      \<lparr>wavetable = [0, 1, 0], tableSize = 2, currentIndex = 1 / 2, tableDelta = 0\<rparr> = 1 / 2"
  by (simp add: getNextSample_def toUnsignedInt_def readTable_def linearInterpolation_def)

text \<open>
  The wrap is a single conditional subtraction. A \<open>tableDelta\<close> that carries the index to
  twice the table size or beyond is not brought back: with \<open>tableSize = 2\<close>, index \<open>0\<close>
  and \<open>tableDelta = 5\<close> the index is left at \<open>3\<close>.
\<close>

lemma getNextSample_index_escapes:
  "0 \<le> currentIndex \<lparr>wavetable = [0, 1, 0], tableSize = 2, currentIndex = 0, tableDelta = 5\<rparr>
   \<and> currentIndex \<lparr>wavetable = [0, 1, 0], tableSize = 2, currentIndex = 0, tableDelta = 5\<rparr>
       < real_of_int (tableSize
           \<lparr>wavetable = [0, 1, 0], tableSize = 2, currentIndex = 0, tableDelta = 5\<rparr>)
   \<and> 0 \<le> tableDelta \<lparr>wavetable = [0, 1, 0], tableSize = 2, currentIndex = 0, tableDelta = 5\<rparr>
   \<and> getNextSample \<lparr>wavetable = [0, 1, 0], tableSize = 2, currentIndex = 0, tableDelta = 5\<rparr>
       = Some (1, \<lparr>wavetable = [0, 1, 0], tableSize = 2, currentIndex = 3, tableDelta = 5\<rparr>)
   \<and> \<not> currentIndex \<lparr>wavetable = [0, 1, 0], tableSize = 2, currentIndex = 3, tableDelta = 5\<rparr>
         < real_of_int (tableSize
             \<lparr>wavetable = [0, 1, 0], tableSize = 2, currentIndex = 3, tableDelta = 5\<rparr>)"
  by (simp add: getNextSample_def toUnsignedInt_def readTable_def)

text \<open>
  The comparison of the wrap is strict. When the advanced index is exactly \<open>tableSize\<close>
  nothing is subtracted, the index stays at \<open>tableSize\<close>, and the next call reads
  \<open>table[tableSize + 1]\<close>, one past the guard sample.
\<close>

lemma getNextSample_no_wrap_at_tableSize:
  "getNextSample \<lparr>wavetable = [0, 1, 0], tableSize = 2, currentIndex = 1, tableDelta = 1\<rparr>
     = Some (0, \<lparr>wavetable = [0, 1, 0], tableSize = 2, currentIndex = 2, tableDelta = 1\<rparr>)
   \<and> getNextSample \<lparr>wavetable = [0, 1, 0], tableSize = 2, currentIndex = 2, tableDelta = 1\<rparr>
     = None"
  by (simp add: getNextSample_def toUnsignedInt_def readTable_def)

text \<open>Runs of \<open>getNextSample\<close>, extended by one more call.\<close>

lemma takeSamples_then_next:
  assumes "takeSamples k w = Some (xs, w1)" and "getNextSample w1 = Some (x, w2)"
  shows "takeSamples (Suc k) w = Some (xs @ [x], w2)"
  using assms
proof (induction k arbitrary: w xs)
  case 0
  then show ?case by simp
next
  case (Suc k)
  obtain x0 w0 ys where g: "getNextSample w = Some (x0, w0)"
    and t: "takeSamples k w0 = Some (ys, w1)" and xs: "xs = x0 # ys"
    using Suc.prems(1) by (auto split: Option.bind_splits)
  have ih: "takeSamples (Suc k) w0 = Some (ys @ [x], w2)"
    using Suc.IH[OF t Suc.prems(2)] .
  have "takeSamples (Suc (Suc k)) w =
          do { (x0, w0) \<leftarrow> getNextSample w;
               (ys, w2) \<leftarrow> takeSamples (Suc k) w0;
               Some (x0 # ys, w2) }"
    by (rule takeSamples.simps(2))
  then show ?case
    by (simp add: g ih xs del: takeSamples.simps)
qed

lemma takeSamples_then_none:
  assumes "takeSamples k w = Some (xs, w1)" and "getNextSample w1 = None"
  shows "takeSamples (Suc k) w = None"
  using assms
proof (induction k arbitrary: w xs)
  case 0
  then show ?case by simp
next
  case (Suc k)
  obtain x0 w0 ys where g: "getNextSample w = Some (x0, w0)"
    and t: "takeSamples k w0 = Some (ys, w1)"
    using Suc.prems(1) by (auto split: Option.bind_splits)
  have ih: "takeSamples (Suc k) w0 = None"
    using Suc.IH[OF t Suc.prems(2)] .
  have "takeSamples (Suc (Suc k)) w =
          do { (x0, w0) \<leftarrow> getNextSample w;
               (ys, w2) \<leftarrow> takeSamples (Suc k) w0;
               Some (x0 # ys, w2) }"
    by (rule takeSamples.simps(2))
  then show ?case
    by (simp add: g ih del: takeSamples.simps)
qed

text \<open>
  In the exact arithmetic of the model, an oscillator as the constructor builds it, with
  its index inside the table and \<open>0 \<le> tableDelta < tableSize\<close>, delivers \<open>k\<close> samples
  and keeps its index inside the table as long as none of the first \<open>k\<close> sums
  \<open>currentIndex + j * tableDelta\<close> is a multiple of \<open>tableSize\<close>; the index it ends at
  is the sum less a multiple of \<open>tableSize\<close>.
\<close>

lemma not_Ints_shift:
  fixes a :: real
  assumes "a \<notin> \<int>"
  shows "a - 1 \<notin> \<int>"
proof
  assume "a - 1 \<in> \<int>"
  then have "a - 1 + 1 \<in> \<int>" by (intro Ints_add Ints_1)
  then show False using assms by simp
qed

lemma takeSamples_no_landing:
  assumes "int (length (wavetable w)) = tableSize w + 1" and "tableSize w < 2 ^ 31"
    and "0 \<le> currentIndex w" and "currentIndex w < real_of_int (tableSize w)"
    and "0 \<le> tableDelta w" and "tableDelta w < real_of_int (tableSize w)"
    and "\<forall>j. 1 \<le> j \<and> j \<le> k \<longrightarrow>
           (currentIndex w + real j * tableDelta w) / real_of_int (tableSize w) \<notin> \<int>"
  shows "\<exists>xs w' z. takeSamples k w = Some (xs, w')
           \<and> w' = w\<lparr>currentIndex := currentIndex w'\<rparr>
           \<and> 0 \<le> currentIndex w' \<and> currentIndex w' < real_of_int (tableSize w)
           \<and> currentIndex w' = currentIndex w + real k * tableDelta w
                                  - real_of_int z * real_of_int (tableSize w)"
  using assms
proof (induction k arbitrary: w)
  case 0
  show ?case
    using "0.prems"(3,4) by (auto intro!: exI[of _ "0::int"])
next
  case (Suc k)
  let ?N = "real_of_int (tableSize w)"
  let ?a = "currentIndex w + tableDelta w"
  have Npos: "0 < ?N" using Suc.prems(3,4) by linarith
  let ?i1 = "if ?a > ?N then ?a - ?N else ?a"
  let ?w1 = "w\<lparr>currentIndex := ?i1\<rparr>"
  have step: "getNextSample w = Some (wavetable w ! (nat \<lfloor>currentIndex w\<rfloor> + 1), ?w1)"
    using getNextSample_in_table[OF Suc.prems(3,4,1,2)] .
  have "(currentIndex w + real 1 * tableDelta w) / ?N \<notin> \<int>"
    using Suc.prems(7) by (metis le_refl le_add1 plus_1_eq_Suc)
  then have "?a / ?N \<notin> \<int>" by simp
  then have ne: "?a \<noteq> ?N"
    using Npos by (metis Ints_1 divide_self_if less_numeral_extra(3))
  have r1: "0 \<le> ?i1" "?i1 < ?N"
    using ne Suc.prems(3,4,5,6) by auto
  obtain d :: int where d: "?i1 = ?a - real_of_int d * ?N" "d = 0 \<or> d = 1"
    by (cases "?a > ?N") auto
  have sel: "wavetable ?w1 = wavetable w" "tableSize ?w1 = tableSize w"
    "tableDelta ?w1 = tableDelta w" "currentIndex ?w1 = ?i1"
    by simp_all
  have nl: "\<forall>j. 1 \<le> j \<and> j \<le> k \<longrightarrow>
              (currentIndex ?w1 + real j * tableDelta ?w1) / real_of_int (tableSize ?w1) \<notin> \<int>"
  proof (intro allI impI)
    fix j assume j: "1 \<le> j \<and> j \<le> k"
    then have "1 \<le> Suc j \<and> Suc j \<le> Suc k" by simp
    then have "(currentIndex w + real (Suc j) * tableDelta w) / ?N \<notin> \<int>"
      by (rule Suc.prems(7)[rule_format])
    moreover have "(?i1 + real j * tableDelta w) / ?N
                     = (currentIndex w + real (Suc j) * tableDelta w) / ?N - real_of_int d"
      using d(1) Npos by (simp add: field_simps)
    ultimately have "(?i1 + real j * tableDelta w) / ?N \<notin> \<int>"
      using d(2) not_Ints_shift by auto
    then show "(currentIndex ?w1 + real j * tableDelta ?w1) / real_of_int (tableSize ?w1) \<notin> \<int>"
      unfolding sel .
  qed
  have "\<exists>xs w' z. takeSamples k ?w1 = Some (xs, w')
           \<and> w' = ?w1\<lparr>currentIndex := currentIndex w'\<rparr>
           \<and> 0 \<le> currentIndex w' \<and> currentIndex w' < real_of_int (tableSize ?w1)
           \<and> currentIndex w' = currentIndex ?w1 + real k * tableDelta ?w1
                                  - real_of_int z * real_of_int (tableSize ?w1)"
  proof (rule Suc.IH)
    show "int (length (wavetable ?w1)) = tableSize ?w1 + 1" unfolding sel using Suc.prems(1) .
    show "tableSize ?w1 < 2 ^ 31" unfolding sel using Suc.prems(2) .
    show "0 \<le> currentIndex ?w1" unfolding sel using r1(1) .
    show "currentIndex ?w1 < real_of_int (tableSize ?w1)" unfolding sel using r1(2) .
    show "0 \<le> tableDelta ?w1" unfolding sel using Suc.prems(5) .
    show "tableDelta ?w1 < real_of_int (tableSize ?w1)" unfolding sel using Suc.prems(6) .
    show "\<forall>j. 1 \<le> j \<and> j \<le> k \<longrightarrow>
              (currentIndex ?w1 + real j * tableDelta ?w1) / real_of_int (tableSize ?w1) \<notin> \<int>"
      using nl .
  qed
  then obtain xs w' z where ts: "takeSamples k ?w1 = Some (xs, w')"
    and w': "w' = ?w1\<lparr>currentIndex := currentIndex w'\<rparr>"
    and r: "0 \<le> currentIndex w'" "currentIndex w' < ?N"
    and e: "currentIndex w' = ?i1 + real k * tableDelta w - real_of_int z * ?N"
    unfolding sel by blast
  have 1: "takeSamples (Suc k) w = Some (wavetable w ! (nat \<lfloor>currentIndex w\<rfloor> + 1) # xs, w')"
    using step ts by simp
  have 2: "w' = w\<lparr>currentIndex := currentIndex w'\<rparr>"
    using w' by (metis WavetableOscillator.update_convs(3) WavetableOscillator.surjective)
  have 3: "currentIndex w' = currentIndex w + real (Suc k) * tableDelta w
                               - real_of_int (z + d) * ?N"
    using e d(1) by (simp add: algebra_simps)
  show ?case
    using 1 2 r 3 by blast
qed

section \<open>Properties of the note lifecycle\<close>

text \<open>
  C7. Whatever the state of the voice, \<open>startNote\<close> with a sound the voice can play sets
  \<open>level\<close> to \<open>velocity * 0.025\<close> and \<open>tailOff\<close> to \<open>0\<close>, gives the voice an
  oscillator on the sound's wavetable with index \<open>0\<close> and, for a sample rate other than
  zero, the increment \<open>frequency * (tableSize / sampleRate)\<close> of the note's frequency,
  and leaves the voice playing and sustaining.
\<close>

theorem startNote_resets:
  assumes "getWaveTable sound = Some waveTable"
  shows "\<exists>v' oscillator.
           startNote noteInHertz sampleRate midiNoteNumber velocity sound v = Some v'
           \<and> level v' = velocity * 0.025 \<and> tailOff v' = 0
           \<and> notePlaying v' \<and> isSustaining v' \<and> currentNote v' = currentNote v
           \<and> osc v' = Some oscillator
           \<and> currentIndex oscillator = 0 \<and> wavetable oscillator = waveTable
           \<and> tableSize oscillator = int (length waveTable) - 1
           \<and> (sampleRate \<noteq> 0 \<longrightarrow>
                tableDelta oscillator
                  = noteInHertz midiNoteNumber * (real_of_int (tableSize oscillator) / sampleRate))"
  using assms
  by (simp add: startNote_def newWavetableOscillator_def setFrequency_def isSustaining_def)

theorem startNote_resets_witness:
  "\<exists>v' oscillator.
     startNote (\<lambda>n. 440) 44100 69 1 (SineWaveSound [0, 1, 0])
        \<lparr>level = 1, tailOff = 1 / 2, notePlaying = True,
         osc = Some \<lparr>wavetable = [0, 1, 0], tableSize = 2, currentIndex = 3 / 2, tableDelta = 1\<rparr>,
         currentNote = Some 60\<rparr> = Some v'
     \<and> level v' = 1 * 0.025 \<and> tailOff v' = 0
     \<and> notePlaying v' \<and> isSustaining v' \<and> currentNote v' = Some 60
     \<and> osc v' = Some oscillator
     \<and> currentIndex oscillator = 0 \<and> wavetable oscillator = [0, 1, 0]
     \<and> tableSize oscillator = 2
     \<and> tableDelta oscillator = 440 * (2 / 44100)"
  using startNote_resets
          [of "SineWaveSound [0, 1, 0]" "[0, 1, 0]" "\<lambda>n. 440" 44100 69 1
              "\<lparr>level = 1, tailOff = 1 / 2, notePlaying = True,
                osc = Some \<lparr>wavetable = [0, 1, 0], tableSize = 2,
                             currentIndex = 3 / 2, tableDelta = 1\<rparr>,
                currentNote = Some 60\<rparr>"]
  by auto

text \<open>
  C2, as stated, fails: a playing voice with \<open>tailOff = 1/2\<close> asked to stop with tail-off
  falls under the "otherwise" of the sentence, and is not cleared.
\<close>

theorem stopNote_releasing_not_cleared:
  "\<not> (True \<and> tailOff \<lparr>level = 1, tailOff = 1 / 2, notePlaying = True,
                          osc = None, currentNote = Some 60\<rparr> = 0)
   \<and> \<not> isIdle (stopNote True \<lparr>level = 1, tailOff = 1 / 2, notePlaying = True,
                               osc = None, currentNote = Some 60\<rparr>)
   \<and> currentNote (stopNote True \<lparr>level = 1, tailOff = 1 / 2, notePlaying = True,
                                  osc = None, currentNote = Some 60\<rparr>) = Some 60"
  by (simp add: stopNote_def isIdle_def)

text \<open>
  C2, amended. \<open>stopNote\<close> with tail-off allowed sets \<open>tailOff\<close> to \<open>1\<close> when it is
  \<open>0\<close> and changes nothing when it is not; with tail-off not allowed it clears the note
  and leaves the voice idle, the other fields unchanged.
\<close>

theorem stopNote_cases:
  "(allowTailOff \<and> tailOff v = 0 \<longrightarrow> stopNote allowTailOff v = v\<lparr>tailOff := 1\<rparr>)
   \<and> (allowTailOff \<and> tailOff v \<noteq> 0 \<longrightarrow> stopNote allowTailOff v = v)
   \<and> (\<not> allowTailOff \<longrightarrow>
        stopNote allowTailOff v = v\<lparr>notePlaying := False, currentNote := None\<rparr>
        \<and> isIdle (stopNote allowTailOff v))"
  by (simp add: stopNote_def clearCurrentNote_def isIdle_def)

theorem stopNote_cases_witness:
  "stopNote True \<lparr>level = 1, tailOff = 0, notePlaying = True, osc = None, currentNote = Some 60\<rparr>
     = \<lparr>level = 1, tailOff = 1, notePlaying = True, osc = None, currentNote = Some 60\<rparr>
   \<and> stopNote True \<lparr>level = 1, tailOff = 1 / 2, notePlaying = True, osc = None, currentNote = Some 60\<rparr>
     = \<lparr>level = 1, tailOff = 1 / 2, notePlaying = True, osc = None, currentNote = Some 60\<rparr>
   \<and> stopNote False \<lparr>level = 1, tailOff = 1 / 2, notePlaying = True, osc = None, currentNote = Some 60\<rparr>
     = \<lparr>level = 1, tailOff = 1 / 2, notePlaying = False, osc = None, currentNote = None\<rparr>"
  using stopNote_cases
          [of True "\<lparr>level = 1, tailOff = 0, notePlaying = True, osc = None, currentNote = Some 60\<rparr>"]
        stopNote_cases
          [of True "\<lparr>level = 1, tailOff = 1 / 2, notePlaying = True, osc = None, currentNote = Some 60\<rparr>"]
        stopNote_cases
          [of False "\<lparr>level = 1, tailOff = 1 / 2, notePlaying = True, osc = None, currentNote = Some 60\<rparr>"]
  by simp

text \<open>
  C9. \<open>stopNote\<close> without tail-off on an idle voice returns the voice as it was, every
  field included.
\<close>

theorem stopNote_idle_noop:
  "isIdle v \<Longrightarrow> stopNote False v = v"
  by (simp add: isIdle_def stopNote_def clearCurrentNote_def)

theorem stopNote_idle_noop_witness:
  "isIdle newSineWaveVoice \<and> stopNote False newSineWaveVoice = newSineWaveVoice"
proof -
  have idle: "isIdle newSineWaveVoice"
    by (simp add: isIdle_def newSineWaveVoice_def)
  show ?thesis
    using idle stopNote_idle_noop [OF idle] by simp
qed

text \<open>
  C10. \<open>stopNote\<close> with tail-off on a voice that is already releasing returns the voice
  as it was: \<open>tailOff\<close> is not set back to \<open>1\<close>, the note is kept and the voice is
  still releasing.
\<close>

theorem stopNote_releasing_noop:
  "isReleasing v \<Longrightarrow>
     stopNote True v = v \<and> isReleasing (stopNote True v)
     \<and> tailOff (stopNote True v) = tailOff v \<and> currentNote (stopNote True v) = currentNote v"
  by (simp add: isReleasing_def stopNote_def)

theorem stopNote_releasing_noop_witness:
  "isReleasing \<lparr>level = 1, tailOff = 1 / 2, notePlaying = True, osc = None, currentNote = Some 60\<rparr>
   \<and> stopNote True \<lparr>level = 1, tailOff = 1 / 2, notePlaying = True, osc = None, currentNote = Some 60\<rparr>
      = \<lparr>level = 1, tailOff = 1 / 2, notePlaying = True, osc = None, currentNote = Some 60\<rparr>"
proof -
  have rel: "isReleasing \<lparr>level = 1, tailOff = 1 / 2, notePlaying = True,
                          osc = None, currentNote = Some 60\<rparr>"
    by (simp add: isReleasing_def)
  show ?thesis
    using rel stopNote_releasing_noop [OF rel] by simp
qed

section \<open>Properties of the wavetable\<close>

text \<open>
  The inner loop keeps the length of the buffer and adds, at every position \<open>j\<close> from
  \<open>i\<close> on and below the table size, the sine of the angle reached after \<open>j - i\<close>
  steps, divided by the harmonic's position plus one.
\<close>

lemma fillHarmonic_length:
  "length (fillHarmonic n h d i a xs) = length xs"
proof (induction n h d i a xs rule: fillHarmonic.induct)
  case (1 n h d i a xs)
  show ?case
    using "1.IH" by (subst fillHarmonic.simps) (simp add: Let_def)
qed

lemma fillHarmonic_nth:
  "j < length xs \<Longrightarrow>
   fillHarmonic n h d i a xs ! j =
     xs ! j + (if i \<le> j \<and> j < n then sin (a + real (j - i) * d) / real (h + 1) else 0)"
proof (induction n h d i a xs rule: fillHarmonic.induct)
  case (1 n h d i a xs)
  show ?case
  proof (cases "i < n")
    case False
    then show ?thesis by (simp add: fillHarmonic.simps[of n h d i a xs])
  next
    case True
    let ?xs' = "xs[i := xs ! i + sin a / real (h + 1)]"
    have step: "fillHarmonic n h d i a xs = fillHarmonic n h d (i + 1) (a + d) ?xs'"
      using True by (simp add: Let_def fillHarmonic.simps[of n h d i a xs])
    have j': "j < length ?xs'" using "1.prems" by simp
    have ih: "fillHarmonic n h d (i + 1) (a + d) ?xs' ! j =
       ?xs' ! j + (if i + 1 \<le> j \<and> j < n then sin (a + d + real (j - (i + 1)) * d) / real (h + 1) else 0)"
      using "1.IH"[OF True refl refl j'] .
    have upd: "j \<noteq> i \<Longrightarrow> ?xs' ! j = xs ! j" by simp
    consider "j = i" | "j < i" | "i + 1 \<le> j" by linarith
    then show ?thesis
    proof cases
      case 1
      then show ?thesis using step ih \<open>i < n\<close> "1.prems" by simp
    next
      case 2
      then show ?thesis using step ih upd by simp
    next
      case 3
      then have "real (j - i) = real (j - (i + 1)) + 1" by simp
      then have e: "a + d + real (j - (i + 1)) * d = a + real (j - i) * d"
        by (simp add: algebra_simps)
      have "fillHarmonic n h d i a xs ! j =
              ?xs' ! j + (if j < n then sin (a + d + real (j - (i + 1)) * d) / real (h + 1) else 0)"
        using step ih 3 by simp
      also have "\<dots> = xs ! j + (if j < n then sin (a + real (j - i) * d) / real (h + 1) else 0)"
        using upd 3 by (simp only: e)
      finally show ?thesis using 3 by simp
    qed
  qed
qed

text \<open>
  The outer loop: below the table size every sample gains one term per remaining harmonic;
  a guard sample equal to the first sample stays equal to it.
\<close>

lemma harmonicsLoop_length:
  "length (harmonicsLoop n hs k xs) = length xs"
proof (induction n hs k xs rule: harmonicsLoop.induct)
  case (1 n hs k xs)
  show ?case
    using "1.IH" by (subst harmonicsLoop.simps) (simp add: Let_def fillHarmonic_length)
qed

lemma harmonicsLoop_nth:
  "length xs = n + 1 \<Longrightarrow> j < n \<Longrightarrow>
   harmonicsLoop n hs k xs ! j =
     xs ! j + (\<Sum>m = k..<length hs. sin (real j * angleDeltaOf n hs m) / real (m + 1))"
proof (induction n hs k xs rule: harmonicsLoop.induct)
  case (1 n hs k xs)
  show ?case
  proof (cases "k < length hs")
    case False
    then show ?thesis by (simp add: harmonicsLoop.simps[of n hs k xs])
  next
    case True
    let ?d = "angleDeltaOf n hs k"
    let ?xs' = "fillHarmonic n k ?d 0 0 xs"
    let ?xs'' = "?xs'[n := ?xs' ! 0]"
    have step: "harmonicsLoop n hs k xs = harmonicsLoop n hs (k + 1) ?xs''"
      using True by (simp add: Let_def angleDeltaOf_def harmonicsLoop.simps[of n hs k xs])
    have len: "length ?xs'' = n + 1" using "1.prems"(1) by (simp add: fillHarmonic_length)
    have ih: "harmonicsLoop n hs (k + 1) ?xs'' ! j =
        ?xs'' ! j + (\<Sum>m = k + 1..<length hs. sin (real j * angleDeltaOf n hs m) / real (m + 1))"
      using "1.IH"[OF True _ refl refl refl len "1.prems"(2)] by (simp add: angleDeltaOf_def)
    have "?xs'' ! j = ?xs' ! j" using "1.prems"(2) by simp
    also have "\<dots> = xs ! j + sin (real j * ?d) / real (k + 1)"
      using fillHarmonic_nth[of j xs n k ?d 0 0] "1.prems" by simp
    finally have x: "?xs'' ! j = xs ! j + sin (real j * ?d) / real (k + 1)" .
    have "(\<Sum>m = k..<length hs. sin (real j * angleDeltaOf n hs m) / real (m + 1)) =
         sin (real j * ?d) / real (k + 1) + (\<Sum>m = k + 1..<length hs. sin (real j * angleDeltaOf n hs m) / real (m + 1))"
      using True by (simp add: sum.atLeast_Suc_lessThan)
    then show ?thesis using step ih x by simp
  qed
qed

lemma harmonicsLoop_guard:
  "length xs = n + 1 \<Longrightarrow> xs ! n = xs ! 0 \<Longrightarrow>
   harmonicsLoop n hs k xs ! n = harmonicsLoop n hs k xs ! 0"
proof (induction n hs k xs rule: harmonicsLoop.induct)
  case (1 n hs k xs)
  show ?case
  proof (cases "k < length hs")
    case False
    then show ?thesis using "1.prems" by (simp add: harmonicsLoop.simps[of n hs k xs])
  next
    case True
    let ?d = "angleDeltaOf n hs k"
    let ?xs' = "fillHarmonic n k ?d 0 0 xs"
    let ?xs'' = "?xs'[n := ?xs' ! 0]"
    have step: "harmonicsLoop n hs k xs = harmonicsLoop n hs (k + 1) ?xs''"
      using True by (simp add: Let_def angleDeltaOf_def harmonicsLoop.simps[of n hs k xs])
    have len: "length ?xs'' = n + 1" using "1.prems"(1) by (simp add: fillHarmonic_length)
    have g: "?xs'' ! n = ?xs'' ! 0"
      using "1.prems"(1) by (cases "n = 0") (simp_all add: fillHarmonic_length)
    have "harmonicsLoop n hs (k + 1) ?xs'' ! n = harmonicsLoop n hs (k + 1) ?xs'' ! 0"
      using "1.IH"[OF True _ refl refl refl len g] by (simp add: angleDeltaOf_def)
    then show ?thesis using step by simp
  qed
qed

text \<open>The samples of the constructed wavetable below the guard sample.\<close>

lemma createWavetable_nth:
  assumes "i < SineWaveSound_tableSize"
  shows "createWavetable ! i =
           (\<Sum>k < length harmonics.
              sin (2 * pi * real_of_int (harmonics ! k) * real i
                     / real (SineWaveSound_tableSize - 1))
                / real (k + 1))"
proof -
  have m: "(int SineWaveSound_tableSize - 1) mod 2 ^ 32 = int (SineWaveSound_tableSize - 1)"
    by (simp add: SineWaveSound_tableSize_def)
  have "createWavetable ! i =
          (\<Sum>m = 0..<length harmonics.
             sin (real i * angleDeltaOf SineWaveSound_tableSize harmonics m) / real (m + 1))"
    unfolding createWavetable_def createWavetableOf_def
    using harmonicsLoop_nth
            [of "replicate (SineWaveSound_tableSize + 1) 0" SineWaveSound_tableSize i harmonics 0]
          assms nth_replicate [of i "SineWaveSound_tableSize + 1" "0::real"]
    by (simp del: replicate.simps)
  also have "\<dots> =
          (\<Sum>k < length harmonics.
              sin (2 * pi * real_of_int (harmonics ! k) * real i
                     / real (SineWaveSound_tableSize - 1))
                / real (k + 1))"
    unfolding angleDeltaOf_def m twoPi_def
    by (simp add: atLeast0LessThan algebra_simps)
  finally show ?thesis .
qed

text \<open>
  C5. For every position \<open>i\<close> below the table size, the sample of the constructed
  wavetable at \<open>i\<close> is the sum, over the positions \<open>k\<close> of the harmonics \<open>1, \<dots>, 8\<close>,
  of \<open>sin (2 \<pi> h i / (tableSize - 1)) / (k + 1)\<close> with \<open>h\<close> the harmonic at position
  \<open>k\<close>. The wavetable is a constant of the model: it depends on nothing but the constants
  \<open>SineWaveSound_tableSize\<close> and \<open>harmonics\<close>.
\<close>

theorem createWavetable_additive_sum:
  assumes "i < SineWaveSound_tableSize"
  shows "createWavetable ! i =
           (\<Sum>k < length harmonics.
              sin (2 * pi * real_of_int (harmonics ! k) * real i
                     / real (SineWaveSound_tableSize - 1))
                / real (k + 1))"
  using assms by (rule createWavetable_nth)

theorem createWavetable_additive_sum_witness:
  "0 < SineWaveSound_tableSize \<and> createWavetable ! 0 = 0"
proof -
  have pos: "0 < SineWaveSound_tableSize"
    by (simp add: SineWaveSound_tableSize_def)
  show ?thesis
    using pos createWavetable_additive_sum [OF pos] by simp
qed

text \<open>
  C6. The constructed wavetable has \<open>tableSize + 1\<close> samples, and its guard sample, at
  index \<open>tableSize\<close>, equals its first sample.
\<close>

theorem createWavetable_guard_sample:
  "createWavetable ! SineWaveSound_tableSize = createWavetable ! 0
   \<and> length createWavetable = SineWaveSound_tableSize + 1"
proof -
  let ?n = "SineWaveSound_tableSize"
  let ?xs = "replicate (?n + 1) (0::real)"
  have len: "length ?xs = ?n + 1"
    by (simp only: length_replicate)
  have z: "?xs ! ?n = ?xs ! 0"
    by (simp only: nth_replicate less_add_one add_pos_nonneg zero_less_one zero_le)
  show ?thesis
    unfolding createWavetable_def createWavetableOf_def
    using harmonicsLoop_guard [OF len z] len by (simp only: harmonicsLoop_length)
qed

section \<open>Properties of rendering\<close>

lemma sameShape_length: "sameShape a b \<Longrightarrow> length a = length b"
  unfolding sameShape_def by (metis length_map)

lemma sameShape_nth: "sameShape a b \<Longrightarrow> c < length b \<Longrightarrow> length (a ! c) = length (b ! c)"
  unfolding sameShape_def by (metis length_map nth_map)

lemma sameShape_refl: "sameShape a a"
  by (simp add: sameShape_def)

lemma sameShape_sym: "sameShape a b \<Longrightarrow> sameShape b a"
  by (simp add: sameShape_def)

lemma sameShape_trans: "sameShape a b \<Longrightarrow> sameShape b c \<Longrightarrow> sameShape a c"
  by (simp add: sameShape_def)

text \<open>
  \<open>addSample\<close> succeeds exactly inside the buffer, keeps the shape and changes one sample.
\<close>

lemma addSample_shape:
  assumes "addSample b c p x = Some b'"
  shows "sameShape b' b"
proof -
  have b': "b' = b[nat c := (b ! nat c)[nat p := b ! nat c ! nat p + x]]"
    and c: "nat c < length b"
    using assms by (auto simp: addSample_def split: if_splits)
  show ?thesis
    unfolding sameShape_def b' using c
    by (simp add: list_eq_iff_nth_eq nth_list_update)
qed

lemma addSample_nth:
  assumes "addSample b c p x = Some b'" and "c' < length b" and "q < length (b ! c')"
  shows "b' ! c' ! q = b ! c' ! q + (if int c' = c \<and> int q = p then x else 0)"
proof -
  have b': "b' = b[nat c := (b ! nat c)[nat p := b ! nat c ! nat p + x]]"
    and c: "0 \<le> c" "nat c < length b" and p: "0 \<le> p" "nat p < length (b ! nat c)"
    using assms(1) by (auto simp: addSample_def split: if_splits)
  show ?thesis
  proof (cases "int c' = c")
    case True
    then have cc: "nat c = c'" by simp
    show ?thesis
    proof (cases "int q = p")
      case True
      then have "nat p = q" by simp
      then show ?thesis using cc b' assms(2,3) \<open>int c' = c\<close> True by simp
    next
      case False
      then have "nat p \<noteq> q" using p(1) by linarith
      then show ?thesis using cc b' assms(2,3) False by simp
    qed
  next
    case False
    then have "nat c \<noteq> c'" using c(1) by linarith
    then show ?thesis using b' False by simp
  qed
qed

lemma addSample_succeeds:
  "(\<exists>b'. addSample b c p x = Some b') \<longleftrightarrow>
     0 \<le> c \<and> c < int (length b) \<and> 0 \<le> p \<and> p < int (length (b ! nat c))"
  by (simp add: addSample_def)

text \<open>
  The channel loop started at \<open>i\<close> adds the value at one position of every channel
  below \<open>i\<close>; whether it succeeds depends on the shape of the buffer only.
\<close>

lemma addToChannels_shape:
  "addToChannels i b p x = Some b' \<Longrightarrow> sameShape b' b"
proof (induction i b p x rule: addToChannels.induct)
  case (1 i b p x)
  show ?case
  proof (cases "i - 1 \<ge> 0")
    case False
    then show ?thesis using "1.prems" by (simp add: addToChannels.simps[of i b p x] sameShape_refl)
  next
    case True
    then obtain b1 where b1: "addSample b (i - 1) p x = Some b1"
      and rest: "addToChannels (i - 1) b1 p x = Some b'"
      using "1.prems" by (auto simp: addToChannels.simps[of i b p x] split: Option.bind_splits)
    show ?thesis
      using "1.IH"[OF True b1 rest] addSample_shape[OF b1] by (rule sameShape_trans)
  qed
qed

lemma addToChannels_nth:
  "addToChannels i b p x = Some b' \<Longrightarrow> c < length b \<Longrightarrow> q < length (b ! c) \<Longrightarrow>
     b' ! c ! q = b ! c ! q + (if int c < i \<and> int q = p then x else 0)"
proof (induction i b p x rule: addToChannels.induct)
  case (1 i b p x)
  show ?case
  proof (cases "i - 1 \<ge> 0")
    case False
    then show ?thesis using "1.prems" by (simp add: addToChannels.simps[of i b p x])
  next
    case True
    then obtain b1 where b1: "addSample b (i - 1) p x = Some b1"
      and rest: "addToChannels (i - 1) b1 p x = Some b'"
      using "1.prems"(1) by (auto simp: addToChannels.simps[of i b p x] split: Option.bind_splits)
    have sh: "sameShape b1 b" using addSample_shape[OF b1] .
    have c1: "c < length b1" using sameShape_length[OF sh] "1.prems"(2) by simp
    have q1: "q < length (b1 ! c)" using sameShape_nth[OF sh "1.prems"(2)] "1.prems"(3) by simp
    have "b' ! c ! q = b1 ! c ! q + (if int c < i - 1 \<and> int q = p then x else 0)"
      using "1.IH"[OF True b1 rest c1 q1] .
    moreover have "b1 ! c ! q = b ! c ! q + (if int c = i - 1 \<and> int q = p then x else 0)"
      using addSample_nth[OF b1 "1.prems"(2,3)] .
    ultimately show ?thesis by auto
  qed
qed

lemma addToChannels_succeeds:
  "(\<exists>b'. addToChannels i b p x = Some b') \<longleftrightarrow>
     (\<forall>c. int c < i \<longrightarrow> c < length b \<and> 0 \<le> p \<and> p < int (length (b ! c)))"
proof (induction i b p x rule: addToChannels.induct)
  case (1 i b p x)
  show ?case
  proof (cases "i - 1 \<ge> 0")
    case False
    then show ?thesis by (simp add: addToChannels.simps[of i b p x])
  next
    case True
    show ?thesis
    proof (cases "addSample b (i - 1) p x")
      case None
      then have "\<not> (0 \<le> i - 1 \<and> i - 1 < int (length b) \<and> 0 \<le> p \<and> p < int (length (b ! nat (i - 1))))"
        using addSample_succeeds[of b "i - 1" p x] by simp
      then have "\<not> (nat (i - 1) < length b \<and> 0 \<le> p \<and> p < int (length (b ! nat (i - 1))))"
        using True by auto
      moreover have "int (nat (i - 1)) < i" using True by simp
      ultimately have "\<not> (\<forall>c. int c < i \<longrightarrow> c < length b \<and> 0 \<le> p \<and> p < int (length (b ! c)))"
        by blast
      then show ?thesis using None True by (simp add: addToChannels.simps[of i b p x])
    next
      case (Some b1)
      have sh: "sameShape b1 b" using addSample_shape[OF Some] .
      have ok: "nat (i - 1) < length b \<and> 0 \<le> p \<and> p < int (length (b ! nat (i - 1)))"
        using addSample_succeeds[of b "i - 1" p x] Some by auto
      have "(\<exists>b'. addToChannels i b p x = Some b') \<longleftrightarrow> (\<exists>b'. addToChannels (i - 1) b1 p x = Some b')"
        using Some True by (simp add: addToChannels.simps[of i b p x])
      also have "\<dots> \<longleftrightarrow> (\<forall>c. int c < i - 1 \<longrightarrow> c < length b1 \<and> 0 \<le> p \<and> p < int (length (b1 ! c)))"
        using "1.IH"[OF True Some] .
      also have "\<dots> \<longleftrightarrow> (\<forall>c. int c < i - 1 \<longrightarrow> c < length b \<and> 0 \<le> p \<and> p < int (length (b ! c)))"
        using sameShape_length[OF sh] sameShape_nth[OF sh] by metis
      also have "\<dots> \<longleftrightarrow> (\<forall>c. int c < i \<longrightarrow> c < length b \<and> 0 \<le> p \<and> p < int (length (b ! c)))"
      proof
        assume a: "\<forall>c. int c < i - 1 \<longrightarrow> c < length b \<and> 0 \<le> p \<and> p < int (length (b ! c))"
        show "\<forall>c. int c < i \<longrightarrow> c < length b \<and> 0 \<le> p \<and> p < int (length (b ! c))"
        proof (intro allI impI)
          fix c assume "int c < i"
          then consider "int c < i - 1" | "c = nat (i - 1)" by linarith
          then show "c < length b \<and> 0 \<le> p \<and> p < int (length (b ! c))"
            using a ok by cases auto
        qed
      next
        assume "\<forall>c. int c < i \<longrightarrow> c < length b \<and> 0 \<le> p \<and> p < int (length (b ! c))"
        then have "\<And>c. int c < i - 1 \<Longrightarrow> c < length b \<and> 0 \<le> p \<and> p < int (length (b ! c))"
        proof -
          fix c assume h: "\<forall>c. int c < i \<longrightarrow> c < length b \<and> 0 \<le> p \<and> p < int (length (b ! c))"
            and "int c < i - 1"
          then have "int c < i" by linarith
          then show "c < length b \<and> 0 \<le> p \<and> p < int (length (b ! c))" using h by blast
        qed
        then show "\<forall>c. int c < i - 1 \<longrightarrow> c < length b \<and> 0 \<le> p \<and> p < int (length (b ! c))"
          by blast
      qed
      finally show ?thesis .
    qed
  qed
qed

lemma addToChannels_other_buffer:
  assumes "addToChannels i b p x = Some b'" and "sameShape b2 b"
  shows "\<exists>b2'. addToChannels i b2 p x = Some b2'"
proof -
  have "\<forall>c. int c < i \<longrightarrow> c < length b \<and> 0 \<le> p \<and> p < int (length (b ! c))"
    using addToChannels_succeeds[of i b p x] assms(1) by blast
  then have "\<forall>c. int c < i \<longrightarrow> c < length b2 \<and> 0 \<le> p \<and> p < int (length (b2 ! c))"
    using sameShape_length[OF assms(2)] sameShape_nth[OF assms(2)] by metis
  then show ?thesis using addToChannels_succeeds[of i b2 p x] by blast
qed

text \<open>
  The release length follows the loop: one sample is always rendered, and the next ones
  as long as the decayed tail-off stays above the threshold.
\<close>

lemma find_map_Suc: "find P (map Suc xs) = map_option Suc (find (P \<circ> Suc) xs)"
  by (induction xs) auto

lemma releaseLength_0: "releaseLength t 0 = 0"
  by (simp add: releaseLength_def)

lemma releaseLength_Suc:
  "releaseLength t (Suc m) =
     (if t * 0.99 \<le> 0.005 then 1 else Suc (releaseLength (t * 0.99) m))"
proof -
  have "[1..<Suc m + 1] = 1 # map Suc [1..<m + 1]"
    by (simp add: map_Suc_upt upt_conv_Cons)
  moreover have "(\<lambda>j. t * 0.99 ^ j \<le> 0.005) \<circ> Suc = (\<lambda>j. t * 0.99 * 0.99 ^ j \<le> 0.005)"
    by (rule ext) (simp only: o_def power_Suc mult.assoc)
  ultimately show ?thesis
    unfolding releaseLength_def
    by (simp add: find_map_Suc split: option.splits)
qed

lemma releaseLength_le: "releaseLength t n \<le> n"
  by (induction n arbitrary: t) (simp_all add: releaseLength_0 releaseLength_Suc)

lemma releaseLength_before:
  "1 \<le> j \<Longrightarrow> j < releaseLength t n \<Longrightarrow> t * 0.99 ^ j > 0.005"
proof (induction n arbitrary: t j)
  case 0
  then show ?case by (simp add: releaseLength_0)
next
  case (Suc m)
  show ?case
  proof (cases "t * 0.99 \<le> 0.005")
    case True
    then show ?thesis using Suc.prems by (simp add: releaseLength_Suc)
  next
    case False
    then have k: "j < Suc (releaseLength (t * 0.99) m)"
      using Suc.prems(2) by (simp add: releaseLength_Suc)
    show ?thesis
    proof (cases "j = 1")
      case True
      then show ?thesis using False by simp
    next
      case False
      then obtain j' where j': "j = Suc j'" "1 \<le> j'"
        using Suc.prems(1) by (cases j) auto
      then have "t * 0.99 * 0.99 ^ j' > 0.005"
        using Suc.IH[of j' "t * 0.99"] k by simp
      then show ?thesis using j' by (simp add: mult.assoc)
    qed
  qed
qed

text \<open>
  One round of either rendering loop, and the loops unfolded once.
\<close>

lemma mix_all_channels:
  assumes "addToChannels (getNumChannels b) b s x = Some b1"
  shows "sameShape b1 b"
    and "c < length b \<Longrightarrow> q < length (b ! c) \<Longrightarrow>
           b1 ! c ! q = b ! c ! q + (if int q = s then x else 0)"
  using addToChannels_shape[OF assms] addToChannels_nth[OF assms, of c q]
  by (simp_all add: getNumChannels_def)

lemma renderTailOff_done:
  "n \<le> 0 \<Longrightarrow> renderTailOff v b s n = Some (v, b)"
  by (simp add: renderTailOff.simps[of v b s n])

lemma renderTailOff_unfold:
  assumes "1 \<le> n" and "osc v = Some w" and "getNextSample w = Some (x, w1)"
    and "addToChannels (getNumChannels b) b s (x * level v * tailOff v) = Some b1"
  shows "renderTailOff v b s n =
           (if tailOff v * 0.99 \<le> 0.005
            then Some (v\<lparr>osc := Some w1, tailOff := tailOff v * 0.99,
                         currentNote := None, notePlaying := False\<rparr>, b1)
            else renderTailOff (v\<lparr>osc := Some w1, tailOff := tailOff v * 0.99\<rparr>) b1 (s + 1) (n - 1))"
  using assms by (simp add: renderTailOff.simps[of v b s n] clearCurrentNote_def)

lemma renderTailOff_first:
  assumes "1 \<le> n" and "renderTailOff v b s n = Some (v', b')"
  shows "\<exists>w x w1 b1. osc v = Some w \<and> getNextSample w = Some (x, w1)
           \<and> addToChannels (getNumChannels b) b s (x * level v * tailOff v) = Some b1"
  using assms
  by (auto simp: renderTailOff.simps[of v b s n] split: Option.bind_splits)

lemma renderSustain_done:
  "n \<le> 0 \<Longrightarrow> renderSustain v b s n = Some (v, b)"
  by (simp add: renderSustain.simps[of v b s n])

lemma renderSustain_unfold:
  assumes "1 \<le> n" and "osc v = Some w" and "getNextSample w = Some (x, w1)"
    and "addToChannels (getNumChannels b) b s (x * level v) = Some b1"
  shows "renderSustain v b s n = renderSustain (v\<lparr>osc := Some w1\<rparr>) b1 (s + 1) (n - 1)"
  using assms by (simp add: renderSustain.simps[of v b s n])

lemma renderSustain_first:
  assumes "1 \<le> n" and "renderSustain v b s n = Some (v', b')"
  shows "\<exists>w x w1 b1. osc v = Some w \<and> getNextSample w = Some (x, w1)
           \<and> addToChannels (getNumChannels b) b s (x * level v) = Some b1"
  using assms
  by (auto simp: renderSustain.simps[of v b s n] split: Option.bind_splits)

lemma contribution_Nil: "contribution s [] q = 0"
  by (simp add: contribution_def)

lemma contribution_Cons:
  "contribution s (y # ys) q = (if int q = s then y else contribution (s + 1) ys q)"
proof -
  have "s < int q \<Longrightarrow> nat (int q - s) = Suc (nat (int q - (s + 1)))"
    by linarith
  then show ?thesis
    by (auto simp: contribution_def)
qed

lemma contribution_before:
  "int q < s \<Longrightarrow> contribution s ys q = 0"
  by (simp add: contribution_def)

lemma contribution_outside:
  "\<not> (s \<le> int q \<and> int q < s + int (length ys)) \<Longrightarrow> contribution s ys q = 0"
  unfolding contribution_def by (simp only: if_False)

lemma releaseMix_length: "length (releaseMix l t xs) = length xs"
  by (induction xs arbitrary: t) simp_all

lemma releaseMix_nth:
  "j < length xs \<Longrightarrow> releaseMix l t xs ! j = xs ! j * l * (t * 0.99 ^ j)"
proof (induction xs arbitrary: t j)
  case Nil
  then show ?case by simp
next
  case (Cons x xs)
  show ?case
  proof (cases j)
    case 0
    then show ?thesis by simp
  next
    case (Suc j')
    then have "releaseMix l (t * 0.99) xs ! j' = xs ! j' * l * (t * 0.99 * 0.99 ^ j')"
      using Cons.IH[of j' "t * 0.99"] Cons.prems by simp
    then show ?thesis using Suc by (simp only: releaseMix.simps nth_Cons_Suc power_Suc mult.assoc)
  qed
qed

lemma takeSamples_length:
  "takeSamples k w = Some (xs, w') \<Longrightarrow> length xs = k"
  by (induction k arbitrary: w xs) (auto split: Option.bind_splits)

lemma takeSamples_Suc:
  "getNextSample w = Some (x, w1) \<Longrightarrow> takeSamples k w1 = Some (xs, w') \<Longrightarrow>
     takeSamples (Suc k) w = Some (x # xs, w')"
  by simp

text \<open>
  The release loop as a whole: it takes \<open>releaseLength\<close> samples from the oscillator,
  mixes them in scaled by level and decayed tail-off, and stops the voice when the tail-off
  has reached the threshold.
\<close>

lemma renderTailOff_char:
  assumes "nat n = m" and "renderTailOff v b s n = Some (v', b')" and "osc v = Some w"
  shows "\<exists>xs w'. takeSamples (releaseLength (tailOff v) m) w = Some (xs, w')
           \<and> osc v' = Some w' \<and> level v' = level v
           \<and> tailOff v' = tailOff v * 0.99 ^ releaseLength (tailOff v) m
           \<and> (if 0 < releaseLength (tailOff v) m
                   \<and> tailOff v * 0.99 ^ releaseLength (tailOff v) m \<le> 0.005
               then \<not> notePlaying v' \<and> currentNote v' = None
               else releaseLength (tailOff v) m = m
                    \<and> notePlaying v' = notePlaying v \<and> currentNote v' = currentNote v)
           \<and> sameShape b' b
           \<and> (\<forall>c q. c < length b \<longrightarrow> q < length (b ! c) \<longrightarrow>
                 b' ! c ! q = b ! c ! q + contribution s (releaseMix (level v) (tailOff v) xs) q)"
  using assms
proof (induction m arbitrary: n v b s w)
  case 0
  then have "renderTailOff v b s n = Some (v, b)"
    by (simp add: renderTailOff_done)
  then have "v' = v" "b' = b" using "0.prems"(2) by simp_all
  then show ?case
    using "0.prems"(3)
    by (simp add: releaseLength_0 sameShape_refl contribution_Nil)
next
  case (Suc m)
  let ?t = "tailOff v"
  have n1: "1 \<le> n" using Suc.prems(1) by linarith
  obtain x w1 b1 where nx: "getNextSample w = Some (x, w1)"
    and mix: "addToChannels (getNumChannels b) b s (x * level v * ?t) = Some b1"
    using renderTailOff_first[OF n1 Suc.prems(2)] Suc.prems(3) by auto
  note unf = renderTailOff_unfold[OF n1 Suc.prems(3) nx mix]
  have sh1: "sameShape b1 b" using mix_all_channels(1)[OF mix] .
  have pt1: "\<And>c q. c < length b \<Longrightarrow> q < length (b ! c) \<Longrightarrow>
               b1 ! c ! q = b ! c ! q + (if int q = s then x * level v * ?t else 0)"
    using mix_all_channels(2)[OF mix] by blast
  show ?case
  proof (cases "?t * 0.99 \<le> 0.005")
    case True
    have k: "releaseLength ?t (Suc m) = 1"
      using True by (simp only: releaseLength_Suc if_True)
    have res: "v' = v\<lparr>osc := Some w1, tailOff := ?t * 0.99, currentNote := None, notePlaying := False\<rparr>"
      "b' = b1"
      using unf True Suc.prems(2) by simp_all
    have ts: "takeSamples 1 w = Some ([x], w1)"
      using nx by simp
    have pw: "?t * 0.99 ^ (1::nat) = ?t * 0.99"
      by (simp only: power_one_right)
    have ov: "osc v' = Some w1" and lv: "level v' = level v"
      and tv: "tailOff v' = ?t * 0.99 ^ (1::nat)"
      using res(1) by (simp_all only: pw) simp_all
    have np: "\<not> notePlaying v' \<and> currentNote v' = None"
      using res(1) by simp
    have c1: "0 < (1::nat) \<and> ?t * 0.99 ^ (1::nat) \<le> 0.005"
      using True by (simp only: pw zero_less_one simp_thms)
    have st: "if 0 < (1::nat) \<and> ?t * 0.99 ^ (1::nat) \<le> 0.005
              then \<not> notePlaying v' \<and> currentNote v' = None
              else 1 = Suc m \<and> notePlaying v' = notePlaying v \<and> currentNote v' = currentNote v"
      using np by (simp only: c1 if_True simp_thms)
    have sh: "sameShape b' b" using sh1 res(2) by simp
    have buf: "\<forall>c q. c < length b \<longrightarrow> q < length (b ! c) \<longrightarrow>
                 b' ! c ! q = b ! c ! q + contribution s (releaseMix (level v) ?t [x]) q"
      using pt1 res(2) by (simp add: contribution_Cons contribution_Nil)
    show ?thesis
      unfolding k by (intro exI conjI; fact)
  next
    case False
    let ?v1 = "v\<lparr>osc := Some w1, tailOff := ?t * 0.99\<rparr>"
    let ?k' = "releaseLength (?t * 0.99) m"
    have k: "releaseLength ?t (Suc m) = Suc ?k'"
      using False by (simp only: releaseLength_Suc if_False)
    have rec: "renderTailOff ?v1 b1 (s + 1) (n - 1) = Some (v', b')"
      using unf False Suc.prems(2) by simp
    have m': "nat (n - 1) = m" using Suc.prems(1) by linarith
    have o1: "osc ?v1 = Some w1" by simp
    have sel: "tailOff ?v1 = ?t * 0.99" "level ?v1 = level v"
      "notePlaying ?v1 = notePlaying v" "currentNote ?v1 = currentNote v"
      by simp_all
    have ih: "\<exists>xs w'. takeSamples ?k' w1 = Some (xs, w')
           \<and> osc v' = Some w' \<and> level v' = level v
           \<and> tailOff v' = ?t * 0.99 * 0.99 ^ ?k'
           \<and> (if 0 < ?k' \<and> ?t * 0.99 * 0.99 ^ ?k' \<le> 0.005
               then \<not> notePlaying v' \<and> currentNote v' = None
               else ?k' = m \<and> notePlaying v' = notePlaying v \<and> currentNote v' = currentNote v)
           \<and> sameShape b' b1
           \<and> (\<forall>c q. c < length b1 \<longrightarrow> q < length (b1 ! c) \<longrightarrow>
                 b' ! c ! q = b1 ! c ! q + contribution (s + 1) (releaseMix (level v) (?t * 0.99) xs) q)"
      using Suc.IH[OF m' rec o1] unfolding sel .
    then obtain xs w' where ts': "takeSamples ?k' w1 = Some (xs, w')"
      and ov: "osc v' = Some w'" and lv: "level v' = level v"
      and tv: "tailOff v' = ?t * 0.99 * 0.99 ^ ?k'"
      and st: "if 0 < ?k' \<and> ?t * 0.99 * 0.99 ^ ?k' \<le> 0.005
               then \<not> notePlaying v' \<and> currentNote v' = None
               else ?k' = m \<and> notePlaying v' = notePlaying v \<and> currentNote v' = currentNote v"
      and sh': "sameShape b' b1"
      and pt': "\<forall>c q. c < length b1 \<longrightarrow> q < length (b1 ! c) \<longrightarrow>
                 b' ! c ! q = b1 ! c ! q + contribution (s + 1) (releaseMix (level v) (?t * 0.99) xs) q"
      by blast
    have pw: "?t * 0.99 ^ Suc ?k' = ?t * 0.99 * 0.99 ^ ?k'"
      by (simp only: power_Suc mult.assoc)
    have ts: "takeSamples (Suc ?k') w = Some (x # xs, w')"
      using takeSamples_Suc[OF nx ts'] .
    have tv2: "tailOff v' = ?t * 0.99 ^ Suc ?k'"
      using tv by (simp only: pw)
    have st2: "if 0 < Suc ?k' \<and> ?t * 0.99 ^ Suc ?k' \<le> 0.005
               then \<not> notePlaying v' \<and> currentNote v' = None
               else Suc ?k' = Suc m \<and> notePlaying v' = notePlaying v \<and> currentNote v' = currentNote v"
    proof (cases "0 < ?k'")
      case True
      show ?thesis
        using st by (simp only: pw True zero_less_Suc nat.inject simp_thms)
    next
      case k0: False
      then have z: "?k' = 0" by simp
      have "\<not> (0 < ?k' \<and> ?t * 0.99 * 0.99 ^ ?k' \<le> 0.005)"
        using k0 by blast
      then have e: "?k' = m \<and> notePlaying v' = notePlaying v \<and> currentNote v' = currentNote v"
        using st by (simp only: if_False)
      have "?t * 0.99 * 0.99 ^ ?k' = ?t * 0.99"
        by (simp only: z power_0 mult_1_right)
      then have "\<not> (0 < Suc ?k' \<and> ?t * 0.99 ^ Suc ?k' \<le> 0.005)"
        using False by (simp only: pw simp_thms)
      then show ?thesis
        using e by (simp only: if_False nat.inject simp_thms)
    qed
    have buf: "\<forall>c q. c < length b \<longrightarrow> q < length (b ! c) \<longrightarrow>
                 b' ! c ! q = b ! c ! q + contribution s (releaseMix (level v) ?t (x # xs)) q"
    proof (intro allI impI)
      fix c q assume c: "c < length b" and q: "q < length (b ! c)"
      have c1: "c < length b1" using sameShape_length[OF sh1] c by simp
      have q1: "q < length (b1 ! c)" using sameShape_nth[OF sh1 c] q by simp
      have "b' ! c ! q = b1 ! c ! q + contribution (s + 1) (releaseMix (level v) (?t * 0.99) xs) q"
        using pt' c1 q1 by blast
      also have "\<dots> = b ! c ! q + (if int q = s then x * level v * ?t else 0)
                        + contribution (s + 1) (releaseMix (level v) (?t * 0.99) xs) q"
        using pt1[OF c q] by simp
      also have "\<dots> = b ! c ! q + contribution s (releaseMix (level v) ?t (x # xs)) q"
        by (simp add: contribution_Cons contribution_before)
      finally show "b' ! c ! q = b ! c ! q + contribution s (releaseMix (level v) ?t (x # xs)) q" .
    qed
    have sh: "sameShape b' b" using sameShape_trans[OF sh' sh1] .
    show ?thesis
      unfolding k by (intro exI conjI; fact)
  qed
qed

text \<open>
  The sustain loop as a whole: one oscillator sample, scaled by the level, for every
  position of the block.
\<close>

lemma renderSustain_char:
  assumes "nat n = m" and "renderSustain v b s n = Some (v', b')" and "osc v = Some w"
  shows "\<exists>xs w'. takeSamples m w = Some (xs, w') \<and> v' = v\<lparr>osc := Some w'\<rparr>
           \<and> sameShape b' b
           \<and> (\<forall>c q. c < length b \<longrightarrow> q < length (b ! c) \<longrightarrow>
                 b' ! c ! q = b ! c ! q + contribution s (map (\<lambda>x. x * level v) xs) q)"
  using assms
proof (induction m arbitrary: n v b s w)
  case 0
  then have "renderSustain v b s n = Some (v, b)"
    by (simp add: renderSustain_done)
  then have "v' = v" "b' = b" using "0.prems"(2) by simp_all
  then show ?case
    using "0.prems"(3) by (simp add: sameShape_refl contribution_Nil)
next
  case (Suc m)
  have n1: "1 \<le> n" using Suc.prems(1) by linarith
  obtain x w1 b1 where nx: "getNextSample w = Some (x, w1)"
    and mix: "addToChannels (getNumChannels b) b s (x * level v) = Some b1"
    using renderSustain_first[OF n1 Suc.prems(2)] Suc.prems(3) by auto
  let ?v1 = "v\<lparr>osc := Some w1\<rparr>"
  have rec: "renderSustain ?v1 b1 (s + 1) (n - 1) = Some (v', b')"
    using renderSustain_unfold[OF n1 Suc.prems(3) nx mix] Suc.prems(2) by simp
  have sh1: "sameShape b1 b" using mix_all_channels(1)[OF mix] .
  have pt1: "\<And>c q. c < length b \<Longrightarrow> q < length (b ! c) \<Longrightarrow>
               b1 ! c ! q = b ! c ! q + (if int q = s then x * level v else 0)"
    using mix_all_channels(2)[OF mix] by blast
  have m': "nat (n - 1) = m" using Suc.prems(1) by linarith
  have o1: "osc ?v1 = Some w1" by simp
  have sel: "level ?v1 = level v" by simp
  have "\<exists>xs w'. takeSamples m w1 = Some (xs, w') \<and> v' = ?v1\<lparr>osc := Some w'\<rparr>
           \<and> sameShape b' b1
           \<and> (\<forall>c q. c < length b1 \<longrightarrow> q < length (b1 ! c) \<longrightarrow>
                 b' ! c ! q = b1 ! c ! q + contribution (s + 1) (map (\<lambda>x. x * level v) xs) q)"
    using Suc.IH[OF m' rec o1] unfolding sel .
  then obtain xs w' where ts': "takeSamples m w1 = Some (xs, w')"
    and v': "v' = ?v1\<lparr>osc := Some w'\<rparr>"
    and sh': "sameShape b' b1"
    and pt': "\<forall>c q. c < length b1 \<longrightarrow> q < length (b1 ! c) \<longrightarrow>
                 b' ! c ! q = b1 ! c ! q + contribution (s + 1) (map (\<lambda>x. x * level v) xs) q"
    by blast
  have ts: "takeSamples (Suc m) w = Some (x # xs, w')"
    using takeSamples_Suc[OF nx ts'] .
  have v2: "v' = v\<lparr>osc := Some w'\<rparr>" using v' by simp
  have sh: "sameShape b' b" using sameShape_trans[OF sh' sh1] .
  have buf: "\<forall>c q. c < length b \<longrightarrow> q < length (b ! c) \<longrightarrow>
               b' ! c ! q = b ! c ! q + contribution s (map (\<lambda>x. x * level v) (x # xs)) q"
  proof (intro allI impI)
    fix c q assume c: "c < length b" and q: "q < length (b ! c)"
    have c1: "c < length b1" using sameShape_length[OF sh1] c by simp
    have q1: "q < length (b1 ! c)" using sameShape_nth[OF sh1 c] q by simp
    have "b' ! c ! q = b1 ! c ! q + contribution (s + 1) (map (\<lambda>x. x * level v) xs) q"
      using pt' c1 q1 by blast
    also have "\<dots> = b ! c ! q + (if int q = s then x * level v else 0)
                      + contribution (s + 1) (map (\<lambda>x. x * level v) xs) q"
      using pt1[OF c q] by simp
    also have "\<dots> = b ! c ! q + contribution s (map (\<lambda>x. x * level v) (x # xs)) q"
      by (simp add: contribution_Cons contribution_before)
    finally show "b' ! c ! q = b ! c ! q + contribution s (map (\<lambda>x. x * level v) (x # xs)) q" .
  qed
  show ?case
    by (intro exI conjI; fact)
qed

text \<open>
  Neither loop changes the shape of the buffer or a sample outside the block.
\<close>

lemma renderTailOff_frame:
  assumes "renderTailOff v b s n = Some (v', b')"
  shows "sameShape b' b"
    and "c < length b \<Longrightarrow> q < length (b ! c) \<Longrightarrow> \<not> (s \<le> int q \<and> int q < s + n) \<Longrightarrow>
           b' ! c ! q = b ! c ! q"
proof -
  have "sameShape b' b \<and> (c < length b \<longrightarrow> q < length (b ! c) \<longrightarrow>
          \<not> (s \<le> int q \<and> int q < s + n) \<longrightarrow> b' ! c ! q = b ! c ! q)"
  proof (cases "n \<le> 0")
    case True
    then show ?thesis
      using assms by (simp add: renderTailOff_done sameShape_refl)
  next
    case False
    then have n1: "1 \<le> n" by simp
    obtain w where w: "osc v = Some w"
      using renderTailOff_first[OF n1 assms] by blast
    obtain xs w' where ts: "takeSamples (releaseLength (tailOff v) (nat n)) w = Some (xs, w')"
      and sh: "sameShape b' b"
      and pt: "\<forall>c q. c < length b \<longrightarrow> q < length (b ! c) \<longrightarrow>
                 b' ! c ! q = b ! c ! q + contribution s (releaseMix (level v) (tailOff v) xs) q"
      using renderTailOff_char[OF refl assms w] by blast
    have "length xs \<le> nat n"
      using takeSamples_length[OF ts] releaseLength_le[of "tailOff v" "nat n"] by simp
    then have "\<not> (s \<le> int q \<and> int q < s + n) \<Longrightarrow>
                 \<not> (s \<le> int q \<and> int q < s + int (length (releaseMix (level v) (tailOff v) xs)))"
      unfolding releaseMix_length by linarith
    then show ?thesis
      using sh pt contribution_outside[of s q "releaseMix (level v) (tailOff v) xs"] by auto
  qed
  then show "sameShape b' b"
    and "c < length b \<Longrightarrow> q < length (b ! c) \<Longrightarrow> \<not> (s \<le> int q \<and> int q < s + n) \<Longrightarrow>
           b' ! c ! q = b ! c ! q"
    by blast+
qed

lemma renderSustain_frame:
  assumes "renderSustain v b s n = Some (v', b')"
  shows "sameShape b' b"
    and "c < length b \<Longrightarrow> q < length (b ! c) \<Longrightarrow> \<not> (s \<le> int q \<and> int q < s + n) \<Longrightarrow>
           b' ! c ! q = b ! c ! q"
proof -
  have "sameShape b' b \<and> (c < length b \<longrightarrow> q < length (b ! c) \<longrightarrow>
          \<not> (s \<le> int q \<and> int q < s + n) \<longrightarrow> b' ! c ! q = b ! c ! q)"
  proof (cases "n \<le> 0")
    case True
    then show ?thesis
      using assms by (simp add: renderSustain_done sameShape_refl)
  next
    case False
    then have n1: "1 \<le> n" by simp
    obtain w where w: "osc v = Some w"
      using renderSustain_first[OF n1 assms] by blast
    obtain xs w' where ts: "takeSamples (nat n) w = Some (xs, w')"
      and sh: "sameShape b' b"
      and pt: "\<forall>c q. c < length b \<longrightarrow> q < length (b ! c) \<longrightarrow>
                 b' ! c ! q = b ! c ! q + contribution s (map (\<lambda>x. x * level v) xs) q"
      using renderSustain_char[OF refl assms w] by blast
    have "length xs = nat n"
      using takeSamples_length[OF ts] .
    then have "\<not> (s \<le> int q \<and> int q < s + n) \<Longrightarrow>
                 \<not> (s \<le> int q \<and> int q < s + int (length (map (\<lambda>x. x * level v) xs)))"
      by simp
    then show ?thesis
      using sh pt contribution_outside[of s q "map (\<lambda>x. x * level v) xs"] by auto
  qed
  then show "sameShape b' b"
    and "c < length b \<Longrightarrow> q < length (b ! c) \<Longrightarrow> \<not> (s \<le> int q \<and> int q < s + n) \<Longrightarrow>
           b' ! c ! q = b ! c ! q"
    by blast+
qed

text \<open>
  Both loops add the same amounts whatever the buffer holds: on a second buffer of the
  same shape they end in the same voice state and change every sample by the same amount.
\<close>

lemma mix_other_buffer:
  assumes "addToChannels (getNumChannels b) b s x = Some b1" and "sameShape b2 b"
  shows "\<exists>b21. addToChannels (getNumChannels b2) b2 s x = Some b21 \<and> sameShape b21 b1
           \<and> (\<forall>c q. c < length b \<longrightarrow> q < length (b ! c) \<longrightarrow>
                 b21 ! c ! q = b2 ! c ! q + (b1 ! c ! q - b ! c ! q))"
proof -
  have nc: "getNumChannels b2 = getNumChannels b"
    using sameShape_length[OF assms(2)] by (simp add: getNumChannels_def)
  obtain b21 where b21: "addToChannels (getNumChannels b2) b2 s x = Some b21"
    using addToChannels_other_buffer[OF assms] nc by auto
  have sh: "sameShape b21 b1"
    using mix_all_channels(1)[OF b21] mix_all_channels(1)[OF assms(1)] assms(2)
    by (meson sameShape_sym sameShape_trans)
  have "\<forall>c q. c < length b \<longrightarrow> q < length (b ! c) \<longrightarrow>
          b21 ! c ! q = b2 ! c ! q + (b1 ! c ! q - b ! c ! q)"
  proof (intro allI impI)
    fix c q assume c: "c < length b" and q: "q < length (b ! c)"
    have c2: "c < length b2" using sameShape_length[OF assms(2)] c by simp
    have q2: "q < length (b2 ! c)" using sameShape_nth[OF assms(2) c] q by simp
    show "b21 ! c ! q = b2 ! c ! q + (b1 ! c ! q - b ! c ! q)"
      using mix_all_channels(2)[OF b21 c2 q2] mix_all_channels(2)[OF assms(1) c q] by simp
  qed
  then show ?thesis using b21 sh by blast
qed

lemma renderTailOff_additive:
  assumes "nat n = m" and "renderTailOff v b s n = Some (v', b')" and "sameShape b2 b"
  shows "\<exists>b2'. renderTailOff v b2 s n = Some (v', b2') \<and> sameShape b2' b2
           \<and> (\<forall>c q. c < length b \<longrightarrow> q < length (b ! c) \<longrightarrow>
                 b2' ! c ! q = b2 ! c ! q + (b' ! c ! q - b ! c ! q))"
  using assms
proof (induction m arbitrary: n v b b2 s)
  case 0
  then have n0: "n \<le> 0" by simp
  have "v' = v" "b' = b"
    using "0.prems"(2) renderTailOff_done[OF n0, of v b s] by simp_all
  then show ?case
    using renderTailOff_done[OF n0, of v b2 s] by (simp add: sameShape_refl)
next
  case (Suc m)
  have n1: "1 \<le> n" using Suc.prems(1) by linarith
  obtain w x w1 b1 where w: "osc v = Some w" and nx: "getNextSample w = Some (x, w1)"
    and mix: "addToChannels (getNumChannels b) b s (x * level v * tailOff v) = Some b1"
    using renderTailOff_first[OF n1 Suc.prems(2)] by blast
  obtain b21 where mix2: "addToChannels (getNumChannels b2) b2 s (x * level v * tailOff v) = Some b21"
    and sh21: "sameShape b21 b1"
    and d1: "\<forall>c q. c < length b \<longrightarrow> q < length (b ! c) \<longrightarrow>
                 b21 ! c ! q = b2 ! c ! q + (b1 ! c ! q - b ! c ! q)"
    using mix_other_buffer[OF mix Suc.prems(3)] by blast
  note unf = renderTailOff_unfold[OF n1 w nx mix]
  note unf2 = renderTailOff_unfold[OF n1 w nx mix2]
  have sh1: "sameShape b1 b" using mix_all_channels(1)[OF mix] .
  have sh2: "sameShape b21 b2" using mix_all_channels(1)[OF mix2] .
  show ?case
  proof (cases "tailOff v * 0.99 \<le> 0.005")
    case True
    have "renderTailOff v b2 s n = Some (v', b21)" "b' = b1"
      using unf unf2 True Suc.prems(2) by simp_all
    then show ?thesis using sh2 d1 by blast
  next
    case False
    let ?v1 = "v\<lparr>osc := Some w1, tailOff := tailOff v * 0.99\<rparr>"
    have rec: "renderTailOff ?v1 b1 (s + 1) (n - 1) = Some (v', b')"
      using unf False Suc.prems(2) by simp
    have rec2: "renderTailOff v b2 s n = renderTailOff ?v1 b21 (s + 1) (n - 1)"
      using unf2 False by simp
    have m': "nat (n - 1) = m" using Suc.prems(1) by linarith
    obtain b2' where r2: "renderTailOff ?v1 b21 (s + 1) (n - 1) = Some (v', b2')"
      and sh': "sameShape b2' b21"
      and d': "\<forall>c q. c < length b1 \<longrightarrow> q < length (b1 ! c) \<longrightarrow>
                 b2' ! c ! q = b21 ! c ! q + (b' ! c ! q - b1 ! c ! q)"
      using Suc.IH[OF m' rec sh21] by blast
    have "\<forall>c q. c < length b \<longrightarrow> q < length (b ! c) \<longrightarrow>
            b2' ! c ! q = b2 ! c ! q + (b' ! c ! q - b ! c ! q)"
    proof (intro allI impI)
      fix c q assume c: "c < length b" and q: "q < length (b ! c)"
      have c1: "c < length b1" using sameShape_length[OF sh1] c by simp
      have q1: "q < length (b1 ! c)" using sameShape_nth[OF sh1 c] q by simp
      have "b2' ! c ! q = b21 ! c ! q + (b' ! c ! q - b1 ! c ! q)"
        using d' c1 q1 by blast
      moreover have "b21 ! c ! q = b2 ! c ! q + (b1 ! c ! q - b ! c ! q)"
        using d1 c q by blast
      ultimately show "b2' ! c ! q = b2 ! c ! q + (b' ! c ! q - b ! c ! q)" by simp
    qed
    then show ?thesis
      using r2 rec2 sameShape_trans[OF sh' sh2] by simp
  qed
qed

lemma renderSustain_additive:
  assumes "nat n = m" and "renderSustain v b s n = Some (v', b')" and "sameShape b2 b"
  shows "\<exists>b2'. renderSustain v b2 s n = Some (v', b2') \<and> sameShape b2' b2
           \<and> (\<forall>c q. c < length b \<longrightarrow> q < length (b ! c) \<longrightarrow>
                 b2' ! c ! q = b2 ! c ! q + (b' ! c ! q - b ! c ! q))"
  using assms
proof (induction m arbitrary: n v b b2 s)
  case 0
  then have n0: "n \<le> 0" by simp
  have "v' = v" "b' = b"
    using "0.prems"(2) renderSustain_done[OF n0, of v b s] by simp_all
  then show ?case
    using renderSustain_done[OF n0, of v b2 s] by (simp add: sameShape_refl)
next
  case (Suc m)
  have n1: "1 \<le> n" using Suc.prems(1) by linarith
  obtain w x w1 b1 where w: "osc v = Some w" and nx: "getNextSample w = Some (x, w1)"
    and mix: "addToChannels (getNumChannels b) b s (x * level v) = Some b1"
    using renderSustain_first[OF n1 Suc.prems(2)] by blast
  obtain b21 where mix2: "addToChannels (getNumChannels b2) b2 s (x * level v) = Some b21"
    and sh21: "sameShape b21 b1"
    and d1: "\<forall>c q. c < length b \<longrightarrow> q < length (b ! c) \<longrightarrow>
                 b21 ! c ! q = b2 ! c ! q + (b1 ! c ! q - b ! c ! q)"
    using mix_other_buffer[OF mix Suc.prems(3)] by blast
  have sh1: "sameShape b1 b" using mix_all_channels(1)[OF mix] .
  have sh2: "sameShape b21 b2" using mix_all_channels(1)[OF mix2] .
  let ?v1 = "v\<lparr>osc := Some w1\<rparr>"
  have rec: "renderSustain ?v1 b1 (s + 1) (n - 1) = Some (v', b')"
    using renderSustain_unfold[OF n1 w nx mix] Suc.prems(2) by simp
  have rec2: "renderSustain v b2 s n = renderSustain ?v1 b21 (s + 1) (n - 1)"
    using renderSustain_unfold[OF n1 w nx mix2] .
  have m': "nat (n - 1) = m" using Suc.prems(1) by linarith
  obtain b2' where r2: "renderSustain ?v1 b21 (s + 1) (n - 1) = Some (v', b2')"
    and sh': "sameShape b2' b21"
    and d': "\<forall>c q. c < length b1 \<longrightarrow> q < length (b1 ! c) \<longrightarrow>
               b2' ! c ! q = b21 ! c ! q + (b' ! c ! q - b1 ! c ! q)"
    using Suc.IH[OF m' rec sh21] by blast
  have "\<forall>c q. c < length b \<longrightarrow> q < length (b ! c) \<longrightarrow>
          b2' ! c ! q = b2 ! c ! q + (b' ! c ! q - b ! c ! q)"
  proof (intro allI impI)
    fix c q assume c: "c < length b" and q: "q < length (b ! c)"
    have c1: "c < length b1" using sameShape_length[OF sh1] c by simp
    have q1: "q < length (b1 ! c)" using sameShape_nth[OF sh1 c] q by simp
    have "b2' ! c ! q = b21 ! c ! q + (b' ! c ! q - b1 ! c ! q)"
      using d' c1 q1 by blast
    moreover have "b21 ! c ! q = b2 ! c ! q + (b1 ! c ! q - b ! c ! q)"
      using d1 c q by blast
    ultimately show "b2' ! c ! q = b2 ! c ! q + (b' ! c ! q - b ! c ! q)" by simp
  qed
  then show ?case
    using r2 rec2 sameShape_trans[OF sh' sh2] by simp
qed

text \<open>
  Both loops return when the oscillator delivers the samples they ask for and the
  positions they write lie inside every channel of the buffer.
\<close>

lemma takeSamples_Suc_Some:
  assumes "takeSamples (Suc k) w = Some (ys, w')"
  shows "\<exists>x w1 xs. getNextSample w = Some (x, w1) \<and> takeSamples k w1 = Some (xs, w')
           \<and> ys = x # xs"
  using assms by (auto split: Option.bind_splits)

lemma mix_succeeds:
  assumes "\<forall>c. c < length b \<longrightarrow> 0 \<le> s \<and> s < int (length (b ! c))"
  shows "\<exists>b1. addToChannels (getNumChannels b) b s x = Some b1"
proof -
  have "\<forall>c. int c < getNumChannels b \<longrightarrow> c < length b \<and> 0 \<le> s \<and> s < int (length (b ! c))"
    using assms by (simp add: getNumChannels_def)
  then show ?thesis
    using addToChannels_succeeds[of "getNumChannels b" b s x] by blast
qed

lemma renderTailOff_returns:
  assumes "nat n = m" and "osc v = Some w"
    and "takeSamples (releaseLength (tailOff v) m) w = Some (xs, w')"
    and "\<forall>c. c < length b \<longrightarrow>
           0 \<le> s \<and> s + int (releaseLength (tailOff v) m) \<le> int (length (b ! c))"
  shows "\<exists>v' b'. renderTailOff v b s n = Some (v', b')"
  using assms
proof (induction m arbitrary: n v b s w xs)
  case 0
  then show ?case by (simp add: renderTailOff_done)
next
  case (Suc m)
  let ?t = "tailOff v"
  have n1: "1 \<le> n" using Suc.prems(1) by linarith
  have kpos: "1 \<le> releaseLength ?t (Suc m)"
    by (simp add: releaseLength_Suc)
  obtain k where k: "releaseLength ?t (Suc m) = Suc k"
    using kpos by (cases "releaseLength ?t (Suc m)") simp_all
  obtain x w1 xs1 where nx: "getNextSample w = Some (x, w1)"
    and ts1: "takeSamples k w1 = Some (xs1, w')"
    using takeSamples_Suc_Some Suc.prems(3) unfolding k by blast
  have inside: "\<forall>c. c < length b \<longrightarrow> 0 \<le> s \<and> s + int (Suc k) \<le> int (length (b ! c))"
    using Suc.prems(4) unfolding k .
  then have "\<forall>c. c < length b \<longrightarrow> 0 \<le> s \<and> s < int (length (b ! c))"
    by fastforce
  then obtain b1 where mix: "addToChannels (getNumChannels b) b s (x * level v * ?t) = Some b1"
    using mix_succeeds by blast
  note unf = renderTailOff_unfold[OF n1 Suc.prems(2) nx mix]
  show ?case
  proof (cases "?t * 0.99 \<le> 0.005")
    case True
    then show ?thesis using unf by simp
  next
    case False
    let ?v1 = "v\<lparr>osc := Some w1, tailOff := ?t * 0.99\<rparr>"
    have kk: "releaseLength ?t (Suc m) = Suc (releaseLength (?t * 0.99) m)"
      using False by (simp only: releaseLength_Suc if_False)
    then have k': "releaseLength (?t * 0.99) m = k" using k by simp
    have sel: "tailOff ?v1 = ?t * 0.99" "osc ?v1 = Some w1" by simp_all
    have m': "nat (n - 1) = m" using Suc.prems(1) by linarith
    have sh1: "sameShape b1 b" using mix_all_channels(1)[OF mix] .
    have ts': "takeSamples (releaseLength (tailOff ?v1) m) w1 = Some (xs1, w')"
      unfolding sel k' using ts1 .
    have in1: "\<forall>c. c < length b1 \<longrightarrow>
           0 \<le> s + 1 \<and> s + 1 + int (releaseLength (tailOff ?v1) m) \<le> int (length (b1 ! c))"
    proof (intro allI impI)
      fix c assume "c < length b1"
      then have c: "c < length b" using sameShape_length[OF sh1] by simp
      have "length (b1 ! c) = length (b ! c)" using sameShape_nth[OF sh1 c] .
      moreover have "0 \<le> s \<and> s + int (Suc k) \<le> int (length (b ! c))" using inside c by blast
      ultimately show "0 \<le> s + 1 \<and> s + 1 + int (releaseLength (tailOff ?v1) m) \<le> int (length (b1 ! c))"
        unfolding sel k' by simp
    qed
    have "\<exists>v' b'. renderTailOff ?v1 b1 (s + 1) (n - 1) = Some (v', b')"
      using Suc.IH[OF m' sel(2) ts' in1] .
    then show ?thesis using unf False by simp
  qed
qed

lemma renderSustain_returns:
  assumes "nat n = m" and "osc v = Some w"
    and "takeSamples m w = Some (xs, w')"
    and "\<forall>c. c < length b \<longrightarrow> 0 \<le> s \<and> s + int m \<le> int (length (b ! c))"
  shows "\<exists>v' b'. renderSustain v b s n = Some (v', b')"
  using assms
proof (induction m arbitrary: n v b s w xs)
  case 0
  then show ?case by (simp add: renderSustain_done)
next
  case (Suc m)
  have n1: "1 \<le> n" using Suc.prems(1) by linarith
  obtain x w1 xs1 where nx: "getNextSample w = Some (x, w1)"
    and ts1: "takeSamples m w1 = Some (xs1, w')"
    using takeSamples_Suc_Some Suc.prems(3) by blast
  have "\<forall>c. c < length b \<longrightarrow> 0 \<le> s \<and> s < int (length (b ! c))"
    using Suc.prems(4) by fastforce
  then obtain b1 where mix: "addToChannels (getNumChannels b) b s (x * level v) = Some b1"
    using mix_succeeds by blast
  let ?v1 = "v\<lparr>osc := Some w1\<rparr>"
  have o1: "osc ?v1 = Some w1" by simp
  have m': "nat (n - 1) = m" using Suc.prems(1) by linarith
  have sh1: "sameShape b1 b" using mix_all_channels(1)[OF mix] .
  have in1: "\<forall>c. c < length b1 \<longrightarrow> 0 \<le> s + 1 \<and> s + 1 + int m \<le> int (length (b1 ! c))"
  proof (intro allI impI)
    fix c assume "c < length b1"
    then have c: "c < length b" using sameShape_length[OF sh1] by simp
    have "length (b1 ! c) = length (b ! c)" using sameShape_nth[OF sh1 c] .
    moreover have "0 \<le> s \<and> s + int (Suc m) \<le> int (length (b ! c))" using Suc.prems(4) c by blast
    ultimately show "0 \<le> s + 1 \<and> s + 1 + int m \<le> int (length (b1 ! c))" by simp
  qed
  have "\<exists>v' b'. renderSustain ?v1 b1 (s + 1) (n - 1) = Some (v', b')"
    using Suc.IH[OF m' o1 ts1 in1] .
  then show ?case using renderSustain_unfold[OF n1 Suc.prems(2) nx mix] by simp
qed

text \<open>
  C4. Take a releasing voice with an oscillator, and let
  \<open>k = releaseLength tailOff numSamples\<close>. When the oscillator delivers \<open>k\<close> samples
  and the positions \<open>startSample, \<dots>, startSample + k - 1\<close> lie inside every channel, the
  render call returns; sample \<open>j\<close> of the oscillator, times \<open>level\<close> times
  \<open>tailOff * 0.99 ^ j\<close>, is added at position \<open>startSample + j\<close> of every channel, and
  \<open>tailOff\<close> ends multiplied by \<open>0.99 ^ k\<close>. The tail-off stays above 0.005 before the
  last rendered sample; when it is at or below 0.005 after it, the voice is idle, and every
  position from \<open>startSample + k\<close> on is as it was. Otherwise the whole block was rendered
  and the voice still plays its note.
\<close>

theorem renderNextBlock_release:
  assumes "isReleasing v" and "osc v = Some w"
    and "takeSamples (releaseLength (tailOff v) (nat n)) w = Some (xs, w')"
    and "\<forall>c. c < length b \<longrightarrow>
           0 \<le> s \<and> s + int (releaseLength (tailOff v) (nat n)) \<le> int (length (b ! c))"
  shows "\<exists>v' b'.
           renderNextBlock v b s n = Some (v', b')
           \<and> osc v' = Some w' \<and> level v' = level v
           \<and> tailOff v' = tailOff v * 0.99 ^ releaseLength (tailOff v) (nat n)
           \<and> (\<forall>j. 1 \<le> j \<and> j < releaseLength (tailOff v) (nat n) \<longrightarrow>
                 tailOff v * 0.99 ^ j > 0.005)
           \<and> (if 0 < releaseLength (tailOff v) (nat n)
                   \<and> tailOff v * 0.99 ^ releaseLength (tailOff v) (nat n) \<le> 0.005
               then isIdle v'
               else releaseLength (tailOff v) (nat n) = nat n
                    \<and> notePlaying v' \<and> currentNote v' = currentNote v)
           \<and> sameShape b' b
           \<and> (\<forall>c q. c < length b \<and> q < length (b ! c) \<longrightarrow>
                 b' ! c ! q = b ! c ! q +
                   (if s \<le> int q \<and> int q < s + int (releaseLength (tailOff v) (nat n))
                    then xs ! nat (int q - s) * level v * (tailOff v * 0.99 ^ nat (int q - s))
                    else 0))"
proof -
  let ?k = "releaseLength (tailOff v) (nat n)"
  have np: "notePlaying v" and pos: "0 < tailOff v"
    using assms(1) by (simp_all add: isReleasing_def)
  have same: "renderNextBlock v b s n = renderTailOff v b s n"
    using np pos by (simp add: renderNextBlock_def)
  obtain v' b' where run: "renderTailOff v b s n = Some (v', b')"
    using renderTailOff_returns[OF refl assms(2,3,4)] by blast
  obtain ys u where ts: "takeSamples ?k w = Some (ys, u)"
    and ov0: "osc v' = Some u" and lv: "level v' = level v"
    and tv: "tailOff v' = tailOff v * 0.99 ^ ?k"
    and st: "if 0 < ?k \<and> tailOff v * 0.99 ^ ?k \<le> 0.005
             then \<not> notePlaying v' \<and> currentNote v' = None
             else ?k = nat n \<and> notePlaying v' = notePlaying v \<and> currentNote v' = currentNote v"
    and sh: "sameShape b' b"
    and pt0: "\<forall>c q. c < length b \<longrightarrow> q < length (b ! c) \<longrightarrow>
               b' ! c ! q = b ! c ! q + contribution s (releaseMix (level v) (tailOff v) ys) q"
    using renderTailOff_char[OF refl run assms(2)] by blast
  have eq: "ys = xs" "u = w'"
    using ts assms(3) by simp_all
  have ov: "osc v' = Some w'"
    using ov0 eq(2) by simp
  have pt: "\<forall>c q. c < length b \<longrightarrow> q < length (b ! c) \<longrightarrow>
               b' ! c ! q = b ! c ! q + contribution s (releaseMix (level v) (tailOff v) xs) q"
    using pt0 eq(1) by simp
  have r: "renderNextBlock v b s n = Some (v', b')"
    using run same by simp
  have len: "length xs = ?k"
    using takeSamples_length[OF assms(3)] .
  have before: "\<forall>j. 1 \<le> j \<and> j < ?k \<longrightarrow> tailOff v * 0.99 ^ j > 0.005"
    using releaseLength_before by blast
  have st2: "if 0 < ?k \<and> tailOff v * 0.99 ^ ?k \<le> 0.005
             then isIdle v'
             else ?k = nat n \<and> notePlaying v' \<and> currentNote v' = currentNote v"
  proof (cases "0 < ?k \<and> tailOff v * 0.99 ^ ?k \<le> 0.005")
    case True
    then have "\<not> notePlaying v' \<and> currentNote v' = None"
      using st by (simp only: if_True simp_thms)
    then have "isIdle v'" by (simp add: isIdle_def)
    then show ?thesis using True by (simp only: if_True simp_thms)
  next
    case False
    then have "?k = nat n \<and> notePlaying v' = notePlaying v \<and> currentNote v' = currentNote v"
      using st by (simp only: if_False simp_thms)
    then have "?k = nat n \<and> notePlaying v' \<and> currentNote v' = currentNote v"
      using np by simp
    then show ?thesis using False by (simp only: if_False simp_thms)
  qed
  have buf: "\<forall>c q. c < length b \<and> q < length (b ! c) \<longrightarrow>
               b' ! c ! q = b ! c ! q +
                 (if s \<le> int q \<and> int q < s + int ?k
                  then xs ! nat (int q - s) * level v * (tailOff v * 0.99 ^ nat (int q - s))
                  else 0)"
  proof (intro allI impI)
    fix c q assume cq: "c < length b \<and> q < length (b ! c)"
    have e: "b' ! c ! q = b ! c ! q + contribution s (releaseMix (level v) (tailOff v) xs) q"
      using pt cq by blast
    show "b' ! c ! q = b ! c ! q +
            (if s \<le> int q \<and> int q < s + int ?k
             then xs ! nat (int q - s) * level v * (tailOff v * 0.99 ^ nat (int q - s))
             else 0)"
    proof (cases "s \<le> int q \<and> int q < s + int ?k")
      case True
      then have j: "nat (int q - s) < length xs" using len by linarith
      have "contribution s (releaseMix (level v) (tailOff v) xs) q
              = releaseMix (level v) (tailOff v) xs ! nat (int q - s)"
        using True len by (simp add: contribution_def releaseMix_length)
      also have "\<dots> = xs ! nat (int q - s) * level v * (tailOff v * 0.99 ^ nat (int q - s))"
        using releaseMix_nth[OF j] .
      finally show ?thesis using e True by (simp only: if_True simp_thms)
    next
      case False
      then have "\<not> (s \<le> int q
                  \<and> int q < s + int (length (releaseMix (level v) (tailOff v) xs)))"
        using len by (simp only: releaseMix_length simp_thms)
      then have "contribution s (releaseMix (level v) (tailOff v) xs) q = 0"
        by (rule contribution_outside)
      then show ?thesis using e False by (simp only: if_False simp_thms)
    qed
  qed
  show ?thesis
    by (intro exI conjI; fact)
qed

theorem renderNextBlock_release_witness:
  "isReleasing
      \<lparr>level = 2, tailOff = 21 / 4000, notePlaying = True,
       osc = Some \<lparr>wavetable = [0, 1, 2, 0], tableSize = 3, currentIndex = 5 / 2, tableDelta = 5 / 4\<rparr>,
       currentNote = Some 60\<rparr>
   \<and> releaseLength (21 / 4000) (nat 8) = 5
   \<and> takeSamples 5
        \<lparr>wavetable = [0, 1, 2, 0], tableSize = 3, currentIndex = 5 / 2, tableDelta = 5 / 4\<rparr>
       = Some ([0, 1, 0, 1, 2],
               \<lparr>wavetable = [0, 1, 2, 0], tableSize = 3, currentIndex = 11 / 4, tableDelta = 5 / 4\<rparr>)
   \<and> (\<exists>v' b'.
         renderNextBlock
           \<lparr>level = 2, tailOff = 21 / 4000, notePlaying = True,
            osc = Some \<lparr>wavetable = [0, 1, 2, 0], tableSize = 3, currentIndex = 5 / 2,
                         tableDelta = 5 / 4\<rparr>,
            currentNote = Some 60\<rparr>
           [[10, 20, 30, 40, 50, 60, 70, 80, 90, 100]] 1 8 = Some (v', b')
         \<and> isIdle v'
         \<and> osc v' = Some \<lparr>wavetable = [0, 1, 2, 0], tableSize = 3, currentIndex = 11 / 4,
                            tableDelta = 5 / 4\<rparr>
         \<and> tailOff v' = 21 / 4000 * 0.99 ^ 5
         \<and> b' ! 0 ! 0 = 10
         \<and> b' ! 0 ! 2 = 30 + 1 * 2 * (21 / 4000 * 0.99 ^ 1)
         \<and> b' ! 0 ! 5 = 60 + 2 * 2 * (21 / 4000 * 0.99 ^ 4)
         \<and> b' ! 0 ! 6 = 70 \<and> b' ! 0 ! 8 = 90 \<and> b' ! 0 ! 9 = 100)"
proof -
  let ?w = "\<lparr>wavetable = [0, 1, 2, 0], tableSize = 3, currentIndex = 5 / 2, tableDelta = 5 / 4\<rparr>"
  let ?w' = "\<lparr>wavetable = [0, 1, 2, 0], tableSize = 3, currentIndex = 11 / 4, tableDelta = 5 / 4\<rparr>"
  let ?v = "\<lparr>level = 2, tailOff = 21 / 4000, notePlaying = True, osc = Some ?w,
             currentNote = Some 60\<rparr>"
  let ?b = "[[10, 20, 30, 40, 50, 60, 70, 80, 90, 100 :: real]]"
  have rel: "isReleasing ?v"
    by (simp add: isReleasing_def)
  have o: "osc ?v = Some ?w"
    by simp
  have t: "tailOff ?v = 21 / 4000" and l: "level ?v = 2"
    by simp_all
  have k: "releaseLength (21 / 4000) (nat 8) = 5"
    by (simp add: releaseLength_def upt_rec)
  have ts: "takeSamples 5 ?w = Some ([0, 1, 0, 1, 2], ?w')"
  proof -
    have five: "(5::nat) = Suc (Suc (Suc (Suc (Suc 0))))"
      by simp
    show ?thesis
      by (subst five) (simp add: getNextSample_def toUnsignedInt_def readTable_def Let_def)
  qed
  have ts': "takeSamples (releaseLength (tailOff ?v) (nat 8)) ?w = Some ([0, 1, 0, 1, 2], ?w')"
    unfolding t k using ts .
  have inside: "\<forall>c. c < length ?b \<longrightarrow>
                  0 \<le> (1::int) \<and> 1 + int (releaseLength (tailOff ?v) (nat 8)) \<le> int (length (?b ! c))"
    unfolding t k by simp
  obtain v' b' where run: "renderNextBlock ?v ?b 1 8 = Some (v', b')"
    and ov: "osc v' = Some ?w'"
    and tv: "tailOff v' = 21 / 4000 * 0.99 ^ 5"
    and st: "if 0 < (5::nat) \<and> 21 / 4000 * 0.99 ^ 5 \<le> (0.005::real)
             then isIdle v'
             else 5 = nat 8 \<and> notePlaying v' \<and> currentNote v' = currentNote ?v"
    and pt: "\<forall>c q. c < length ?b \<and> q < length (?b ! c) \<longrightarrow>
               b' ! c ! q = ?b ! c ! q +
                 (if 1 \<le> int q \<and> int q < 1 + int 5
                  then [0, 1, 0, 1, 2] ! nat (int q - 1) * 2 * (21 / 4000 * 0.99 ^ nat (int q - 1))
                  else 0)"
    using renderNextBlock_release [OF rel o ts' inside] unfolding t k l by blast
  have c: "0 < (5::nat) \<and> 21 / 4000 * 0.99 ^ 5 \<le> (0.005::real)"
    by (simp add: power_divide)
  have idle: "isIdle v'"
    using st by (simp only: c if_True)
  have p0: "b' ! 0 ! 0 = 10" using pt [rule_format, of 0 0] by simp
  have p2: "b' ! 0 ! 2 = 30 + 1 * 2 * (21 / 4000 * 0.99 ^ 1)"
    using pt [rule_format, of 0 2] by simp
  have p5: "b' ! 0 ! 5 = 60 + 2 * 2 * (21 / 4000 * 0.99 ^ 4)"
    using pt [rule_format, of 0 5] by simp
  have p6: "b' ! 0 ! 6 = 70" using pt [rule_format, of 0 6] by simp
  have p8: "b' ! 0 ! 8 = 90" using pt [rule_format, of 0 8] by simp
  have p9: "b' ! 0 ! 9 = 100" using pt [rule_format, of 0 9] by simp
  show ?thesis
    using rel k ts run idle ov tv p0 p2 p5 p6 p8 p9 by blast
qed

text \<open>
  C8. An idle voice renders nothing: voice and buffer are returned as they were. Any
  other call that returns keeps the shape of the buffer, leaves every sample outside
  \<open>[startSample, startSample + numSamples)\<close> unchanged and only adds: on any other
  buffer of the same shape the call ends in the same voice state and changes every sample
  by the same amount, whatever the buffer held before.
\<close>

theorem renderNextBlock_adds_in_range:
  "(\<not> notePlaying v \<longrightarrow> renderNextBlock v b s n = Some (v, b))
   \<and> (renderNextBlock v b s n = Some (v', b') \<longrightarrow>
        sameShape b' b
        \<and> (\<forall>c q. c < length b \<and> q < length (b ! c) \<and> \<not> (s \<le> int q \<and> int q < s + n) \<longrightarrow>
              b' ! c ! q = b ! c ! q)
        \<and> (\<forall>b2. sameShape b2 b \<longrightarrow>
              (\<exists>b2'. renderNextBlock v b2 s n = Some (v', b2') \<and> sameShape b2' b2
                 \<and> (\<forall>c q. c < length b \<and> q < length (b ! c) \<longrightarrow>
                       b2' ! c ! q = b2 ! c ! q + (b' ! c ! q - b ! c ! q)))))"
proof (intro conjI impI)
  assume "\<not> notePlaying v"
  then show "renderNextBlock v b s n = Some (v, b)"
    by (simp add: renderNextBlock_def)
next
  assume run: "renderNextBlock v b s n = Some (v', b')"
  consider (idle) "\<not> notePlaying v"
    | (release) "notePlaying v" "tailOff v > 0"
    | (sustain) "notePlaying v" "\<not> tailOff v > 0"
    by blast
  then show "sameShape b' b"
  proof cases
    case idle
    then show ?thesis using run by (simp add: renderNextBlock_def sameShape_refl)
  next
    case release
    then have "renderTailOff v b s n = Some (v', b')"
      using run by (simp add: renderNextBlock_def)
    then show ?thesis by (rule renderTailOff_frame(1))
  next
    case sustain
    then have "renderSustain v b s n = Some (v', b')"
      using run by (simp add: renderNextBlock_def)
    then show ?thesis by (rule renderSustain_frame(1))
  qed
next
  assume run: "renderNextBlock v b s n = Some (v', b')"
  show "\<forall>c q. c < length b \<and> q < length (b ! c) \<and> \<not> (s \<le> int q \<and> int q < s + n) \<longrightarrow>
          b' ! c ! q = b ! c ! q"
  proof (intro allI impI)
    fix c q
    assume h: "c < length b \<and> q < length (b ! c) \<and> \<not> (s \<le> int q \<and> int q < s + n)"
    then have c: "c < length b" and q: "q < length (b ! c)"
      and out: "\<not> (s \<le> int q \<and> int q < s + n)"
      by blast+
    consider (idle) "\<not> notePlaying v"
      | (release) "notePlaying v" "tailOff v > 0"
      | (sustain) "notePlaying v" "\<not> tailOff v > 0"
      by blast
    then show "b' ! c ! q = b ! c ! q"
    proof cases
      case idle
      then show ?thesis using run by (simp add: renderNextBlock_def)
    next
      case release
      then have "renderTailOff v b s n = Some (v', b')"
        using run by (simp add: renderNextBlock_def)
      then show ?thesis using c q out by (rule renderTailOff_frame(2))
    next
      case sustain
      then have "renderSustain v b s n = Some (v', b')"
        using run by (simp add: renderNextBlock_def)
      then show ?thesis using c q out by (rule renderSustain_frame(2))
    qed
  qed
next
  assume run: "renderNextBlock v b s n = Some (v', b')"
  show "\<forall>b2. sameShape b2 b \<longrightarrow>
          (\<exists>b2'. renderNextBlock v b2 s n = Some (v', b2') \<and> sameShape b2' b2
             \<and> (\<forall>c q. c < length b \<and> q < length (b ! c) \<longrightarrow>
                   b2' ! c ! q = b2 ! c ! q + (b' ! c ! q - b ! c ! q)))"
  proof (intro allI impI)
    fix b2 assume sh: "sameShape b2 b"
    consider (idle) "\<not> notePlaying v"
      | (release) "notePlaying v" "tailOff v > 0"
      | (sustain) "notePlaying v" "\<not> tailOff v > 0"
      by blast
    then show "\<exists>b2'. renderNextBlock v b2 s n = Some (v', b2') \<and> sameShape b2' b2
             \<and> (\<forall>c q. c < length b \<and> q < length (b ! c) \<longrightarrow>
                   b2' ! c ! q = b2 ! c ! q + (b' ! c ! q - b ! c ! q))"
    proof cases
      case idle
      then show ?thesis using run by (simp add: renderNextBlock_def sameShape_refl)
    next
      case release
      then have r: "renderTailOff v b s n = Some (v', b')"
        and e: "renderNextBlock v b2 s n = renderTailOff v b2 s n"
        using run by (simp_all add: renderNextBlock_def)
      show ?thesis
        using renderTailOff_additive[OF refl r sh] unfolding e by blast
    next
      case sustain
      then have r: "renderSustain v b s n = Some (v', b')"
        and e: "renderNextBlock v b2 s n = renderSustain v b2 s n"
        using run by (simp_all add: renderNextBlock_def)
      show ?thesis
        using renderSustain_additive[OF refl r sh] unfolding e by blast
    qed
  qed
qed

theorem renderNextBlock_adds_in_range_witness:
  "\<not> notePlaying newSineWaveVoice
   \<and> renderNextBlock newSineWaveVoice [[10, 20, 30, 40], [1, 2, 3, 4]] 1 2
       = Some (newSineWaveVoice, [[10, 20, 30, 40], [1, 2, 3, 4]])
   \<and> renderNextBlock
      \<lparr>level = 2, tailOff = 0, notePlaying = True,
       osc = Some \<lparr>wavetable = [0, 1, 0], tableSize = 2, currentIndex = 0, tableDelta = 1 / 2\<rparr>,
       currentNote = Some 60\<rparr>
      [[10, 20, 30, 40], [1, 2, 3, 4]] 1 2
    = Some (\<lparr>level = 2, tailOff = 0, notePlaying = True,
             osc = Some \<lparr>wavetable = [0, 1, 0], tableSize = 2, currentIndex = 1, tableDelta = 1 / 2\<rparr>,
             currentNote = Some 60\<rparr>,
            [[10, 22, 32, 40], [1, 4, 5, 4]])
   \<and> sameShape [[10, 22, 32, 40], [1, 4, 5, 4]] [[10, 20, 30, 40], [1, 2, 3, 4]]
   \<and> (\<exists>b2'. renderNextBlock
        \<lparr>level = 2, tailOff = 0, notePlaying = True,
         osc = Some \<lparr>wavetable = [0, 1, 0], tableSize = 2, currentIndex = 0, tableDelta = 1 / 2\<rparr>,
         currentNote = Some 60\<rparr>
        [[0, 0, 0, 0], [0, 0, 0, 0]] 1 2
       = Some (\<lparr>level = 2, tailOff = 0, notePlaying = True,
               osc = Some \<lparr>wavetable = [0, 1, 0], tableSize = 2, currentIndex = 1, tableDelta = 1 / 2\<rparr>,
               currentNote = Some 60\<rparr>, b2')
       \<and> b2' ! 0 ! 1 = 2 \<and> b2' ! 1 ! 2 = 2 \<and> b2' ! 0 ! 0 = 0 \<and> b2' ! 1 ! 3 = 0)"
proof -
  let ?v = "\<lparr>level = 2, tailOff = 0, notePlaying = True,
       osc = Some \<lparr>wavetable = [0, 1, 0], tableSize = 2, currentIndex = 0, tableDelta = 1 / 2\<rparr>,
       currentNote = Some 60\<rparr>"
  let ?v' = "\<lparr>level = 2, tailOff = 0, notePlaying = True,
       osc = Some \<lparr>wavetable = [0, 1, 0], tableSize = 2, currentIndex = 1, tableDelta = 1 / 2\<rparr>,
       currentNote = Some 60\<rparr>"
  let ?b = "[[10, 20, 30, 40], [1, 2, 3, 4 :: real]]"
  let ?b' = "[[10, 22, 32, 40], [1, 4, 5, 4 :: real]]"
  let ?z = "[[0, 0, 0, 0], [0, 0, 0, 0 :: real]]"
  have idle: "\<not> notePlaying newSineWaveVoice"
    by (simp add: newSineWaveVoice_def)
  have noop: "renderNextBlock newSineWaveVoice ?b 1 2 = Some (newSineWaveVoice, ?b)"
    using renderNextBlock_adds_in_range [of newSineWaveVoice ?b 1 2] idle by blast
  have run: "renderNextBlock ?v ?b 1 2 = Some (?v', ?b')"
    by (simp add: renderNextBlock_def renderSustain.simps addToChannels.simps addSample_def
          getNumChannels_def getNextSample_def toUnsignedInt_def readTable_def Let_def)
  have shz: "sameShape ?z ?b"
    by (simp add: sameShape_def)
  note all = renderNextBlock_adds_in_range [of ?v ?b 1 2 ?v' ?b']
  have sh: "sameShape ?b' ?b"
    using all run by blast
  obtain b2' where r2: "renderNextBlock ?v ?z 1 2 = Some (?v', b2')"
    and d: "\<forall>c q. c < length ?b \<and> q < length (?b ! c) \<longrightarrow>
               b2' ! c ! q = ?z ! c ! q + (?b' ! c ! q - ?b ! c ! q)"
    using all run shz by blast
  have "b2' ! 0 ! 1 = 2" "b2' ! 1 ! 2 = 2" "b2' ! 0 ! 0 = 0" "b2' ! 1 ! 3 = 0"
    using d [rule_format, of 0 1] d [rule_format, of 1 2] d [rule_format, of 0 0]
      d [rule_format, of 1 3]
    by simp_all
  then show ?thesis
    using idle noop run sh r2 by blast
qed

section \<open>The oscillator on the wavetable of the sound\<close>

text \<open>
  The first sample of the constructed wavetable is \<open>0\<close> and the second is positive: the
  angles of all eight harmonics at position \<open>1\<close> lie strictly between \<open>0\<close> and \<open>\<pi>\<close>.
\<close>

lemma harmonics_range:
  assumes "k < length harmonics"
  shows "1 \<le> harmonics ! k \<and> harmonics ! k \<le> 8"
proof -
  have "\<forall>h \<in> set harmonics. 1 \<le> h \<and> h \<le> 8"
    by (simp add: harmonics_def)
  then show ?thesis using assms nth_mem by blast
qed

lemma createWavetable_0: "createWavetable ! 0 = 0"
proof -
  have "0 < SineWaveSound_tableSize" by (simp add: SineWaveSound_tableSize_def)
  then show ?thesis using createWavetable_nth[of 0] by simp
qed

lemma createWavetable_1_pos: "0 < createWavetable ! 1"
proof -
  let ?N = "real (SineWaveSound_tableSize - 1)"
  have N: "?N = 16777215" by (simp add: SineWaveSound_tableSize_def)
  have one: "1 < SineWaveSound_tableSize" by (simp add: SineWaveSound_tableSize_def)
  have summand: "0 < sin (2 * pi * real_of_int (harmonics ! k) * real 1 / ?N) / real (k + 1)"
    if "k \<in> {..<length harmonics}" for k
  proof -
    have h: "1 \<le> harmonics ! k" "harmonics ! k \<le> 8"
      using harmonics_range that by simp_all
    let ?h = "real_of_int (harmonics ! k)"
    have hr: "1 \<le> ?h" "?h \<le> 8" using h by simp_all
    have pos: "0 < 2 * pi * ?h * real 1 / ?N"
      unfolding N using hr pi_gt_zero by simp
    have "2 * ?h / 16777215 < 1" using hr by simp
    then have "pi * (2 * ?h / 16777215) < pi * 1"
      using pi_gt_zero by (simp only: mult_less_cancel_left_pos)
    then have lt: "2 * pi * ?h * real 1 / ?N < pi"
      unfolding N by (simp add: algebra_simps)
    have "0 < sin (2 * pi * ?h * real 1 / ?N)"
      using sin_gt_zero[OF pos lt] .
    then show ?thesis by simp
  qed
  have "0 < length harmonics" by (simp add: harmonics_def)
  then have ne: "{..<length harmonics} \<noteq> {}" by blast
  have "0 < (\<Sum>k < length harmonics.
              sin (2 * pi * real_of_int (harmonics ! k) * real 1 / ?N) / real (k + 1))"
    using sum_pos[OF finite_lessThan ne summand] .
  then show ?thesis using createWavetable_nth[OF one] by simp
qed

text \<open>
  C1. For an index inside the table, \<open>getNextSample\<close> should return the linear
  interpolation of the two bracketing samples, weighted by the fractional part of the
  index. The source does not: for an oscillator on the wavetable of the sound, as
  \<open>startNote\<close> builds it, at index \<open>1/2\<close> the interpolation is half the second sample
  of the table, and \<open>getNextSample\<close> returns the second sample itself, which is not zero.
\<close>

theorem getNextSample_constant_fraction:
  "map_option fst
      (getNextSample ((newWavetableOscillator createWavetable)\<lparr>currentIndex := 1 / 2\<rparr>))
     = Some (createWavetable ! 1)
   \<and> linearInterpolation ((newWavetableOscillator createWavetable)\<lparr>currentIndex := 1 / 2\<rparr>)
       = createWavetable ! 1 / 2
   \<and> createWavetable ! 1 \<noteq> createWavetable ! 1 / 2"
proof -
  let ?o = "(newWavetableOscillator createWavetable)\<lparr>currentIndex := 1 / 2\<rparr>"
  have f: "\<lfloor>1 / 2 :: real\<rfloor> = 0" by simp
  have a: "0 \<le> currentIndex ?o" by simp
  have len: "length createWavetable = SineWaveSound_tableSize + 1"
    unfolding createWavetable_def createWavetableOf_def
    by (simp only: harmonicsLoop_length length_replicate)
  have ts: "tableSize ?o = 2 ^ 24"
    by (simp add: newWavetableOscillator_def len SineWaveSound_tableSize_def)
  have b: "currentIndex ?o < real_of_int (tableSize ?o)"
    unfolding ts by simp
  have c: "int (length (wavetable ?o)) = tableSize ?o + 1"
    unfolding ts by (simp add: newWavetableOscillator_def len SineWaveSound_tableSize_def)
  have d: "tableSize ?o < 2 ^ 31" unfolding ts by simp
  have 1: "map_option fst (getNextSample ?o) = Some (createWavetable ! 1)"
    unfolding getNextSample_in_table[OF a b c d]
    by (simp add: newWavetableOscillator_def)
  have 2: "linearInterpolation ?o = createWavetable ! 1 / 2"
    by (simp add: linearInterpolation_def newWavetableOscillator_def createWavetable_0)
  have 3: "createWavetable ! 1 \<noteq> createWavetable ! 1 / 2"
    using createWavetable_1_pos by simp
  show ?thesis using 1 2 3 by blast
qed


text \<open>
  The wavetable of the sound has \<open>2 ^ 24 + 1\<close> samples. For note 69 (440 Hz) at a sample
  rate of 32768 Hz the increment is \<open>440 * 512 = 225280\<close>, and no multiple of it below the
  4096th is a multiple of the table size.
\<close>

lemma createWavetable_length: "length createWavetable = 16777217"
  unfolding createWavetable_def createWavetableOf_def
  by (simp only: harmonicsLoop_length length_replicate) (simp add: SineWaveSound_tableSize_def)

lemma no_landing_note69:
  assumes "1 \<le> j \<and> j \<le> 4095"
  shows "(0 + real j * 225280) / real_of_int 16777216 \<notin> \<int>"
proof
  assume "(0 + real j * 225280) / real_of_int 16777216 \<in> \<int>"
  then obtain z :: int where z: "(0 + real j * 225280) / real_of_int 16777216 = of_int z"
    by (auto elim: Ints_cases)
  then have "real j * 55 = real_of_int z * 4096"
    by (simp add: field_simps)
  then have "real_of_int (int j * 55) = real_of_int (z * 4096)"
    by simp
  then have "int j * 55 = z * 4096"
    by (simp only: of_int_eq_iff)
  then have "(2::int) ^ 12 dvd int j * 55"
    by simp
  moreover have "coprime ((2::int) ^ 12) 55"
  proof -
    have "coprime (2::int) 55" by simp
    then show ?thesis by (simp only: coprime_power_left_iff simp_thms)
  qed
  ultimately have "(2::int) ^ 12 dvd int j"
    by (simp only: coprime_dvd_mult_left_iff)
  then have "4096 \<le> int j"
    using assms by (intro zdvd_imp_le) simp_all
  then show False using assms by simp
qed

text \<open>
  C3. With the index in \<open>[0, tableSize)\<close> before a call of \<open>getNextSample\<close>, the index
  should be in \<open>[0, tableSize)\<close> after it. The source does not keep it there.
  \<open>startNote\<close> for note 69 at 32768 Hz on the wavetable of the sound gives the increment
  \<open>225280\<close>; after 4095 samples the index is \<open>16551936\<close>, inside the table; the next
  call advances it to exactly \<open>tableSize = 16777216\<close>, which the strict comparison does
  not wrap; the call after that reads past the guard sample. Every number of this run is an
  integer below \<open>2 ^ 25\<close> and a multiple of \<open>4096\<close>, so binary32 arithmetic is exact on it.
\<close>

theorem getNextSample_stays_at_tableSize:
  "map_option osc
      (startNote (\<lambda>n. 440) 32768 69 1 (SineWaveSound createWavetable) newSineWaveVoice)
     = Some (Some \<lparr>wavetable = createWavetable, tableSize = 16777216,
                    currentIndex = 0, tableDelta = 225280\<rparr>)
   \<and> map_option snd
        (takeSamples 4095 \<lparr>wavetable = createWavetable, tableSize = 16777216,
                            currentIndex = 0, tableDelta = 225280\<rparr>)
       = Some \<lparr>wavetable = createWavetable, tableSize = 16777216,
                currentIndex = 16551936, tableDelta = 225280\<rparr>
   \<and> 0 \<le> currentIndex \<lparr>wavetable = createWavetable, tableSize = 16777216,
                           currentIndex = 16551936, tableDelta = 225280\<rparr>
   \<and> currentIndex \<lparr>wavetable = createWavetable, tableSize = 16777216,
                     currentIndex = 16551936, tableDelta = 225280\<rparr>
       < real_of_int (tableSize \<lparr>wavetable = createWavetable, tableSize = 16777216,
                                  currentIndex = 16551936, tableDelta = 225280\<rparr>)
   \<and> 0 \<le> tableDelta \<lparr>wavetable = createWavetable, tableSize = 16777216,
                         currentIndex = 16551936, tableDelta = 225280\<rparr>
   \<and> map_option snd
        (getNextSample \<lparr>wavetable = createWavetable, tableSize = 16777216,
                         currentIndex = 16551936, tableDelta = 225280\<rparr>)
       = Some \<lparr>wavetable = createWavetable, tableSize = 16777216,
                currentIndex = 16777216, tableDelta = 225280\<rparr>
   \<and> \<not> currentIndex \<lparr>wavetable = createWavetable, tableSize = 16777216,
                        currentIndex = 16777216, tableDelta = 225280\<rparr>
         < real_of_int (tableSize \<lparr>wavetable = createWavetable, tableSize = 16777216,
                                    currentIndex = 16777216, tableDelta = 225280\<rparr>)
   \<and> getNextSample \<lparr>wavetable = createWavetable, tableSize = 16777216,
                      currentIndex = 16777216, tableDelta = 225280\<rparr> = None
   \<and> map_option snd
        (takeSamples 4096 \<lparr>wavetable = createWavetable, tableSize = 16777216,
                            currentIndex = 0, tableDelta = 225280\<rparr>)
       = Some \<lparr>wavetable = createWavetable, tableSize = 16777216,
                currentIndex = 16777216, tableDelta = 225280\<rparr>
   \<and> takeSamples 4097 \<lparr>wavetable = createWavetable, tableSize = 16777216,
                           currentIndex = 0, tableDelta = 225280\<rparr> = None"
proof -
  let ?w0 = "\<lparr>wavetable = createWavetable, tableSize = 16777216,
              currentIndex = 0, tableDelta = 225280\<rparr>"
  let ?w1 = "\<lparr>wavetable = createWavetable, tableSize = 16777216,
              currentIndex = 16551936, tableDelta = 225280\<rparr>"
  let ?w2 = "\<lparr>wavetable = createWavetable, tableSize = 16777216,
              currentIndex = 16777216, tableDelta = 225280\<rparr>"
  have a: "map_option osc
      (startNote (\<lambda>n. 440) 32768 69 1 (SineWaveSound createWavetable) newSineWaveVoice)
     = Some (Some ?w0)"
    by (simp add: startNote_def newWavetableOscillator_def setFrequency_def
          createWavetable_length)
  have wf0: "int (length (wavetable ?w0)) = tableSize ?w0 + 1" "tableSize ?w0 < 2 ^ 31"
    "0 \<le> currentIndex ?w0" "currentIndex ?w0 < real_of_int (tableSize ?w0)"
    "0 \<le> tableDelta ?w0" "tableDelta ?w0 < real_of_int (tableSize ?w0)"
    by (simp_all add: createWavetable_length)
  have nl: "\<forall>j. 1 \<le> j \<and> j \<le> 4095 \<longrightarrow>
              (currentIndex ?w0 + real j * tableDelta ?w0) / real_of_int (tableSize ?w0) \<notin> \<int>"
    using no_landing_note69 by simp
  obtain xs w' z where ts: "takeSamples 4095 ?w0 = Some (xs, w')"
    and w': "w' = ?w0\<lparr>currentIndex := currentIndex w'\<rparr>"
    and r: "0 \<le> currentIndex w'" "currentIndex w' < real_of_int (tableSize ?w0)"
    and e: "currentIndex w' = currentIndex ?w0 + real 4095 * tableDelta ?w0
                                - real_of_int z * real_of_int (tableSize ?w0)"
    using takeSamples_no_landing[OF wf0 nl] by blast
  have e': "currentIndex w' = 922521600 - real_of_int z * 16777216"
    using e by simp
  have "real_of_int z < 55" "53 < real_of_int z"
    using r e' by simp_all
  then have "z < 55" "53 < z" by linarith+
  then have "z = 54" by linarith
  then have ci: "currentIndex w' = 16551936"
    using e' by simp
  have w1: "w' = ?w1"
    using w' ci by simp
  have b: "map_option snd (takeSamples 4095 ?w0) = Some ?w1"
    using ts w1 by simp
  have wf1: "0 \<le> currentIndex ?w1" "currentIndex ?w1 < real_of_int (tableSize ?w1)"
    "int (length (wavetable ?w1)) = tableSize ?w1 + 1" "tableSize ?w1 < 2 ^ 31"
    by (simp_all add: createWavetable_length)
  have d: "map_option snd (getNextSample ?w1) = Some ?w2"
    unfolding getNextSample_in_table[OF wf1] by simp
  have f: "getNextSample ?w2 = None"
    by (simp add: getNextSample_def toUnsignedInt_def readTable_def createWavetable_length)
  obtain x where nx: "getNextSample ?w1 = Some (x, ?w2)"
    using d by auto
  have ts1: "takeSamples 4095 ?w0 = Some (xs, ?w1)"
    using ts w1 by simp
  have n1: "Suc 4095 = 4096" and n2: "Suc 4096 = 4097"
    by simp_all
  have ts2: "takeSamples 4096 ?w0 = Some (xs @ [x], ?w2)"
    using takeSamples_then_next[OF ts1 nx] unfolding n1 .
  have g: "map_option snd (takeSamples 4096 ?w0) = Some ?w2"
    using ts2 by simp
  have h: "takeSamples 4097 ?w0 = None"
    using takeSamples_then_none[OF ts2 f] unfolding n2 .
  show ?thesis
    using a b d f g h by simp
qed


end
